theory Spec2Isabelle
  imports Main "HOL-Library.Word"
begin

section \<open>JavaScript strings\<close>

text \<open>
  A JavaScript string is a sequence of 16-bit code units. Neither regular expression of
  the program carries the \<open>u\<close> flag, so matching and \<open>trim\<close> work on code units.
\<close>

type_synonym jschar = "16 word"
type_synonym jsstring = "jschar list"

definition js :: "string \<Rightarrow> jsstring" where
  "js s = map of_char s"

text \<open>
  The class \<open>\s\<close> of a regular expression and the characters removed by
  \<open>String.prototype.trim\<close> are the same set: WhiteSpace and LineTerminator of ECMAScript.
\<close>

definition is_ws :: "jschar \<Rightarrow> bool" where
  "is_ws c \<longleftrightarrow>
     c = 0x09 \<or> c = 0x0A \<or> c = 0x0B \<or> c = 0x0C \<or> c = 0x0D \<or> c = 0x20 \<or> c = 0xA0 \<or>
     c = 0x1680 \<or> (0x2000 \<le> c \<and> c \<le> 0x200A) \<or> c = 0x2028 \<or> c = 0x2029 \<or>
     c = 0x202F \<or> c = 0x205F \<or> c = 0x3000 \<or> c = 0xFEFF"

definition trim :: "jsstring \<Rightarrow> jsstring" where
  "trim s = rev (dropWhile is_ws (rev (dropWhile is_ws s)))"

section \<open>Backtracking regular expression matching\<close>

text \<open>
  The fragment of ECMAScript patterns used by the program: literal text, sequence,
  alternation, the greedy optional \<open>(?:r)?\<close>, the greedy star \<open>c*\<close> and the lazy star
  \<open>c*?\<close> over a character class, and the one capturing group.
\<close>

datatype cclass = Whitespace | AnyUnit

fun in_class :: "cclass \<Rightarrow> jschar \<Rightarrow> bool" where
  "in_class Whitespace c = is_ws c"
| "in_class AnyUnit c = True"

datatype regex =
    Lit jsstring
  | Seq regex regex
  | Alt regex regex
  | Opt regex
  | Star cclass
  | LazyStar cclass
  | Group regex

text \<open>
  A matcher state is the input that is left and the text captured by group 1.
  As in the ECMAScript specification a matcher takes a continuation: it tries its
  alternatives in priority order and the first one under which the continuation
  succeeds is the result.
\<close>

type_synonym mstate = "jsstring \<times> jsstring option"

fun greedy_star :: "(jschar \<Rightarrow> bool) \<Rightarrow> (mstate \<Rightarrow> mstate option) \<Rightarrow> jsstring \<Rightarrow> jsstring option \<Rightarrow> mstate option" where
  "greedy_star P k [] cap = k ([], cap)"
| "greedy_star P k (c # cs) cap =
     (if P c then
        (case greedy_star P k cs cap of
           Some r \<Rightarrow> Some r
         | None \<Rightarrow> k (c # cs, cap))
      else k (c # cs, cap))"

fun lazy_star :: "(jschar \<Rightarrow> bool) \<Rightarrow> (mstate \<Rightarrow> mstate option) \<Rightarrow> jsstring \<Rightarrow> jsstring option \<Rightarrow> mstate option" where
  "lazy_star P k [] cap = k ([], cap)"
| "lazy_star P k (c # cs) cap =
     (case k (c # cs, cap) of
        Some r \<Rightarrow> Some r
      | None \<Rightarrow> if P c then lazy_star P k cs cap else None)"

primrec matcher :: "regex \<Rightarrow> (mstate \<Rightarrow> mstate option) \<Rightarrow> mstate \<Rightarrow> mstate option" where
  "matcher (Lit w) k = (\<lambda>st.
     if take (length w) (fst st) = w then k (drop (length w) (fst st), snd st) else None)"
| "matcher (Seq a b) k = matcher a (matcher b k)"
| "matcher (Alt a b) k = (\<lambda>st.
     case matcher a k st of Some r \<Rightarrow> Some r | None \<Rightarrow> matcher b k st)"
| "matcher (Opt a) k = (\<lambda>st.
     case matcher a k st of Some r \<Rightarrow> Some r | None \<Rightarrow> k st)"
| "matcher (Star c) k = (\<lambda>st. greedy_star (in_class c) k (fst st) (snd st))"
| "matcher (LazyStar c) k = (\<lambda>st. lazy_star (in_class c) k (fst st) (snd st))"
| "matcher (Group a) k = (\<lambda>st.
     matcher a (\<lambda>st'. k (fst st', Some (take (length (fst st) - length (fst st')) (fst st)))) st)"

text \<open>
  \<open>regex.exec(text)\<close> on a freshly created pattern starts at index 0 and tries every
  start position from left to right, the end of the text included. The result is the
  match's group 1, or \<open>None\<close> for \<open>null\<close>.
\<close>

fun exec :: "regex \<Rightarrow> jsstring \<Rightarrow> jsstring option option" where
  "exec r [] = map_option snd (matcher r Some ([], None))"
| "exec r (c # cs) =
     (case matcher r Some (c # cs, None) of
        Some st \<Rightarrow> Some (snd st)
      | None \<Rightarrow> exec r cs)"

section \<open>The code-block extractors\<close>

text \<open>The fence marker: three backticks (code unit 0x60).\<close>

definition fence :: jsstring where
  "fence = [0x60, 0x60, 0x60]"

text \<open>
  The pattern of the server API route, \<^verbatim>\<open>/```(?:html)?\s*([\s\S]*?)```/g\<close>, and the
  pattern of the client-side app, \<^verbatim>\<open>/```(?:javascript|js)?\s*([\s\S]*?)```/g\<close>.
\<close>

definition regex_api :: regex where
  "regex_api =
     Seq (Lit fence)
       (Seq (Opt (Lit (js ''html'')))
         (Seq (Star Whitespace)
           (Seq (Group (LazyStar AnyUnit)) (Lit fence))))"

definition regex_app :: regex where
  "regex_app =
     Seq (Lit fence)
       (Seq (Opt (Alt (Lit (js ''javascript'')) (Lit (js ''js''))))
         (Seq (Star Whitespace)
           (Seq (Group (LazyStar AnyUnit)) (Lit fence))))"

text \<open>
  The part the two patterns share: \<open>capture_tail\<close> is the capturing group followed by
  the closing fence, \<open>ws_tail\<close> is \<open>\s*\<close> followed by \<open>capture_tail\<close>, both run to the
  end of the pattern.
\<close>

definition capture_tail :: "mstate \<Rightarrow> mstate option" where
  "capture_tail = matcher (Seq (Group (LazyStar AnyUnit)) (Lit fence)) Some"

definition ws_tail :: "mstate \<Rightarrow> mstate option" where
  "ws_tail = matcher (Seq (Star Whitespace) (Seq (Group (LazyStar AnyUnit)) (Lit fence))) Some"

datatype js_error = TypeError | SyntaxError | NetworkError | ApiError

text \<open>
  \<open>match ? match[1].trim() : ''\<close> in the API route and
  \<open>match ? match[1].trim() : response\<close> in the client-side app. Calling \<open>trim\<close> on a
  group that took no part in the match would throw a TypeError.
\<close>

definition extractedCode_api :: "jsstring \<Rightarrow> js_error + jsstring" where
  "extractedCode_api response =
     (case exec regex_api response of
        None \<Rightarrow> Inr []
      | Some None \<Rightarrow> Inl TypeError
      | Some (Some g) \<Rightarrow> Inr (trim g))"

definition extractedCode_app :: "jsstring \<Rightarrow> js_error + jsstring" where
  "extractedCode_app response =
     (case exec regex_app response of
        None \<Rightarrow> Inr response
      | Some None \<Rightarrow> Inl TypeError
      | Some (Some g) \<Rightarrow> Inr (trim g))"

section \<open>generateCodeFromImage\<close>

text \<open>A value that may be \<open>undefined\<close>.\<close>

type_synonym jsval = "jsstring option"

record payload =
  fullResponse :: jsval
  code :: jsval

record model_call =
  call_model :: string
  call_prompt :: jsstring
  call_data :: jsval
  call_mimeType :: string

text \<open>\<open>text.split(',')\<close> and the element at index 1 of the result.\<close>

fun split_on :: "jschar \<Rightarrow> jsstring \<Rightarrow> jsstring list" where
  "split_on sep [] = [[]]"
| "split_on sep (c # cs) =
     (if c = sep then [] # split_on sep cs
      else (case split_on sep cs of
              [] \<Rightarrow> [[c]]
            | part # parts \<Rightarrow> (c # part) # parts))"

definition image_data :: "jsstring \<Rightarrow> jsval" where
  "image_data imageBase64 =
     (case split_on 0x2C imageBase64 of
        _ # d # _ \<Rightarrow> Some d
      | _ \<Rightarrow> None)"

definition finalPrompt :: "jsstring \<Rightarrow> jsstring \<Rightarrow> jsstring" where
  "finalPrompt prompt userInput =
     (if trim userInput \<noteq> []
      then prompt @ [0x0A, 0x0A] @ js ''User input: '' @ userInput
      else prompt)"

text \<open>
  The generative model is outside the program: it is a parameter that answers a call
  with the response text (\<open>result.response.text()\<close> in the API route, \<open>result.text\<close> in
  the client-side app, taken to be a string) or throws. Each function returns, beside
  its result, the list of calls it made to the model.
\<close>

definition generateCodeFromImage_api ::
  "(model_call \<Rightarrow> js_error + jsstring) \<Rightarrow> jsstring \<Rightarrow> jsstring \<Rightarrow> jsstring
     \<Rightarrow> (js_error + payload) \<times> model_call list" where
  "generateCodeFromImage_api model imageBase64 prompt userInput =
     (let call = \<lparr>call_model = ''gemini-1.5-flash'',
                  call_prompt = finalPrompt prompt userInput,
                  call_data = image_data imageBase64,
                  call_mimeType = ''image/jpeg''\<rparr>
      in (case model call of
            Inl e \<Rightarrow> Inl e
          | Inr response \<Rightarrow>
              (case extractedCode_api response of
                 Inl e \<Rightarrow> Inl e
               | Inr extracted \<Rightarrow>
                   Inr \<lparr>fullResponse = Some response, code = Some extracted\<rparr>),
          [call]))"

text \<open>
  A settled promise: the time at which it settled and its outcome, \<open>Inl\<close> a rejection.
\<close>

type_synonym 'a settled = "nat \<times> (js_error + 'a)"

definition generateCodeFromImage_app ::
  "(model_call \<Rightarrow> jsstring settled) \<Rightarrow> jsstring \<Rightarrow> jsstring \<Rightarrow> jsstring
     \<Rightarrow> payload settled \<times> model_call list" where
  "generateCodeFromImage_app model imageBase64 prompt userInput =
     (let call = \<lparr>call_model = ''gemini-2.5-flash'',
                  call_prompt = finalPrompt prompt userInput,
                  call_data = image_data imageBase64,
                  call_mimeType = ''image/jpeg''\<rparr>
      in ((fst (model call),
           (case snd (model call) of
              Inl e \<Rightarrow> Inl e
            | Inr response \<Rightarrow>
                (case extractedCode_app response of
                   Inl e \<Rightarrow> Inl e
                 | Inr extracted \<Rightarrow>
                     Inr \<lparr>fullResponse = Some response, code = Some extracted\<rparr>))),
          [call]))"

section \<open>The API route handler\<close>

record request =
  req_method :: string
  body_imageBase64 :: jsval
  body_prompt :: jsval
  body_userInput :: jsval

record json = payload +
  message :: jsval

record response =
  status :: nat
  body :: json

definition message_body :: "string \<Rightarrow> json" where
  "message_body m = \<lparr>fullResponse = None, code = None, message = Some (js m)\<rparr>"

text \<open>
  The fields of the request body are strings or missing.
  \<open>!imageBase64 || !prompt\<close> holds for a field that is missing or the empty string.
  A missing \<open>userInput\<close> makes \<open>userInput.trim()\<close> throw inside
  \<open>generateCodeFromImage\<close>, before the model is called; the handler's \<open>catch\<close> answers 500.
\<close>

definition handler ::
  "(model_call \<Rightarrow> js_error + jsstring) \<Rightarrow> request \<Rightarrow> response \<times> model_call list" where
  "handler model req =
     (if req_method req \<noteq> ''POST''
      then (\<lparr>status = 405, body = message_body ''Method not allowed''\<rparr>, [])
      else
        (case (body_imageBase64 req, body_prompt req) of
           (Some imageBase64, Some prompt) \<Rightarrow>
             if imageBase64 = [] \<or> prompt = []
             then (\<lparr>status = 400, body = message_body ''Missing required parameters''\<rparr>, [])
             else
               (case body_userInput req of
                  None \<Rightarrow> (\<lparr>status = 500, body = message_body ''Error generating code''\<rparr>, [])
                | Some userInput \<Rightarrow>
                    (case generateCodeFromImage_api model imageBase64 prompt userInput of
                       (Inr result, calls) \<Rightarrow>
                         (\<lparr>status = 200,
                           body = \<lparr>fullResponse = fullResponse result, code = code result,
                                   message = None\<rparr>\<rparr>, calls)
                     | (Inl e, calls) \<Rightarrow>
                         (\<lparr>status = 500, body = message_body ''Error generating code''\<rparr>, calls)))
         | _ \<Rightarrow> (\<lparr>status = 400, body = message_body ''Missing required parameters''\<rparr>, [])))"

section \<open>The Home component: generateCode and handleCodeChange\<close>

record output_item = payload +
  oid :: nat

record home_state =
  imageBase64 :: jsstring
  outputs :: "output_item list"
  loading :: bool
  hasStartedGenerating :: bool
  concurrentRequests :: nat
  prompt :: jsstring
  showErrorModal :: bool
  userInput :: jsstring

text \<open>
  \<open>Promise.all\<close>: fulfilled with the values in the order of the promises when every
  promise is fulfilled, rejected with the reason of the rejection that came first in
  time otherwise.
\<close>

fun first_rejection :: "'a settled list \<Rightarrow> (nat \<times> js_error) option" where
  "first_rejection [] = None"
| "first_rejection ((t, Inr v) # ps) = first_rejection ps"
| "first_rejection ((t, Inl e) # ps) =
     (case first_rejection ps of
        None \<Rightarrow> Some (t, e)
      | Some (t', e') \<Rightarrow> if t' < t then Some (t', e') else Some (t, e))"

fun fulfilled_values :: "'a settled list \<Rightarrow> 'a list" where
  "fulfilled_values [] = []"
| "fulfilled_values ((t, Inr v) # ps) = v # fulfilled_values ps"
| "fulfilled_values ((t, Inl e) # ps) = fulfilled_values ps"

definition Promise_all :: "'a settled list \<Rightarrow> js_error + 'a list" where
  "Promise_all ps =
     (case first_rejection ps of
        Some (t, e) \<Rightarrow> Inl e
      | None \<Rightarrow> Inr (fulfilled_values ps))"

text \<open>
  \<open>generateCode\<close> runs in two steps around its one \<open>await\<close>. The first step is the
  guard on the image, the three state updates and the creation of the requests; the
  state it leaves is the one the page shows while the batch is in flight. The second
  step runs when \<open>Promise.all\<close> has settled, on the state of that moment. The
  \<open>catch\<close> block also logs the error with \<open>console.error\<close>, which is not modelled.
\<close>

definition generateCode_submit :: "home_state \<Rightarrow> home_state option" where
  "generateCode_submit st =
     (if imageBase64 st = [] then None
      else Some (st\<lparr>loading := True, hasStartedGenerating := True, outputs := []\<rparr>))"

definition to_output :: "nat \<Rightarrow> 'a payload_scheme \<Rightarrow> output_item" where
  "to_output index result =
     \<lparr>fullResponse = fullResponse result, code = code result, oid = index + 1\<rparr>"

definition generateCode_settle :: "'a payload_scheme settled list \<Rightarrow> home_state \<Rightarrow> home_state" where
  "generateCode_settle requests st =
     (case Promise_all requests of
        Inr results \<Rightarrow>
          st\<lparr>outputs := map (\<lambda>(index, result). to_output index result) (enumerate 0 results),
             loading := False\<rparr>
      | Inl e \<Rightarrow> st\<lparr>showErrorModal := True, loading := False\<rparr>)"

text \<open>
  \<open>pages/index.tsx\<close>: every request is a \<open>fetch\<close> of \<open>/api/generate\<close> followed by
  \<open>res.json()\<close>. The network is a parameter: for the request with a given index it
  gives the settled outcome, the parsed JSON body or a rejection.
\<close>

definition fetch_request :: "home_state \<Rightarrow> request" where
  "fetch_request st =
     \<lparr>req_method = ''POST'', body_imageBase64 = Some (imageBase64 st),
      body_prompt = Some (prompt st), body_userInput = Some (userInput st)\<rparr>"

definition requests_pages :: "(nat \<Rightarrow> request \<Rightarrow> json settled) \<Rightarrow> home_state \<Rightarrow> json settled list" where
  "requests_pages fetch st = map (\<lambda>i. fetch i (fetch_request st)) [0..<concurrentRequests st]"

definition generateCode_pages :: "(nat \<Rightarrow> request \<Rightarrow> json settled) \<Rightarrow> home_state \<Rightarrow> home_state" where
  "generateCode_pages fetch st =
     (case generateCode_submit st of
        None \<Rightarrow> st
      | Some st' \<Rightarrow> generateCode_settle (requests_pages fetch st) st')"

text \<open>
  The client-side app: every request is a call of \<open>generateCodeFromImage\<close>. The result
  also lists the calls made to the model.
\<close>

definition requests_app ::
  "(nat \<Rightarrow> model_call \<Rightarrow> jsstring settled) \<Rightarrow> home_state \<Rightarrow> (payload settled \<times> model_call list) list" where
  "requests_app model st =
     map (\<lambda>i. generateCodeFromImage_app (model i) (imageBase64 st) (prompt st) (userInput st))
       [0..<concurrentRequests st]"

definition generateCode_app ::
  "(nat \<Rightarrow> model_call \<Rightarrow> jsstring settled) \<Rightarrow> home_state \<Rightarrow> home_state \<times> model_call list" where
  "generateCode_app model st =
     (case generateCode_submit st of
        None \<Rightarrow> (st, [])
      | Some st' \<Rightarrow>
          (generateCode_settle (map fst (requests_app model st)) st',
           concat (map snd (requests_app model st))))"

text \<open>
  The deployment of \<open>pages/index.tsx\<close> with a network that delivers: the request with
  index \<open>i\<close> reaches the handler of the API route, and \<open>res.json()\<close> gives the body of
  the handler's answer whatever its status. \<open>fetch\<close> rejects only when the network
  fails, and \<open>generateCode\<close> does not look at \<open>res.ok\<close> or \<open>res.status\<close>.
\<close>

definition api_fetch ::
  "(nat \<Rightarrow> model_call \<Rightarrow> js_error + jsstring) \<Rightarrow> nat \<Rightarrow> request \<Rightarrow> json settled" where
  "api_fetch model i req = (i, Inr (body (fst (handler (model i) req))))"

definition handleCodeChange :: "nat \<Rightarrow> jsstring \<Rightarrow> home_state \<Rightarrow> home_state" where
  "handleCodeChange i newCode st =
     st\<lparr>outputs :=
          map (\<lambda>item. if oid item = i then item\<lparr>code := Some newCode\<rparr> else item)
            (outputs st)\<rparr>"

section \<open>Fenced code blocks\<close>

text \<open>
  The notions the specification uses. \<open>find_fence\<close> splits a text at the first fence
  marker. The first fenced block of a text starts at its first fence marker; the
  block's language tag is the run of characters directly after that marker that are
  neither whitespace nor backticks (it may be empty); the block's inner content is the
  text between the tag and the next fence marker.
\<close>

fun find_fence :: "jsstring \<Rightarrow> (jsstring \<times> jsstring) option" where
  "find_fence [] = None"
| "find_fence (c # cs) =
     (if take (length fence) (c # cs) = fence then Some ([], drop (length fence) (c # cs))
      else map_option (\<lambda>(before, after). (c # before, after)) (find_fence cs))"

definition is_tag_char :: "jschar \<Rightarrow> bool" where
  "is_tag_char c \<longleftrightarrow> \<not> is_ws c \<and> c \<noteq> 0x60"

definition first_fenced_block :: "jsstring \<Rightarrow> (jsstring \<times> jsstring) option" where
  "first_fenced_block text =
     (case find_fence text of
        None \<Rightarrow> None
      | Some (before, rest) \<Rightarrow>
          (case find_fence (dropWhile is_tag_char rest) of
             None \<Rightarrow> None
           | Some (inner, after) \<Rightarrow> Some (takeWhile is_tag_char rest, inner)))"

definition has_fenced_block :: "jsstring \<Rightarrow> bool" where
  "has_fenced_block text \<longleftrightarrow> first_fenced_block text \<noteq> None"

text \<open>
  What is left of a text once a pattern has consumed the language tag it knows at its
  start: \<open>html\<close> for the API route; \<open>javascript\<close>, tried first, or \<open>js\<close> for the
  client-side app.
\<close>

definition strip_lit :: "jsstring \<Rightarrow> jsstring \<Rightarrow> jsstring" where
  "strip_lit w s = (if take (length w) s = w then drop (length w) s else s)"

definition strip_api :: "jsstring \<Rightarrow> jsstring" where
  "strip_api s = strip_lit (js ''html'') s"

definition strip_app :: "jsstring \<Rightarrow> jsstring" where
  "strip_app s =
     (if take (length (js ''javascript'')) s = js ''javascript''
      then drop (length (js ''javascript'')) s
      else strip_lit (js ''js'') s)"

section \<open>Examples\<close>

text \<open>The example of the specification and the texts on which the theorems are run.\<close>

definition example_text :: jsstring where
  "example_text =
     js ''Here is the code:'' @ [0x0A] @ fence @ js ''html'' @ [0x0A] @ js ''<div>hi</div>'' @
     [0x0A] @ fence @ [0x0A] @ js ''Done.''"

definition python_text :: jsstring where
  "python_text = fence @ js ''python'' @ [0x0A] @ js ''print(1)'' @ [0x0A] @ fence"

definition two_blocks_text :: jsstring where
  "two_blocks_text =
     js ''First:'' @ [0x0A] @ fence @ [0x0A] @ js ''  let a = 1;  '' @ [0x0A] @ fence @
     js '' then '' @ fence @ js ''let b = 2;'' @ fence"

definition unterminated_text :: jsstring where
  "unterminated_text = js ''Sorry: '' @ fence @ js ''html'' @ [0x0A] @ js ''<div>''"

definition js_tagged_text :: jsstring where
  "js_tagged_text = fence @ js ''js'' @ [0x0A] @ js ''let x;'' @ [0x0A] @ fence"

definition html_tagged_text :: jsstring where
  "html_tagged_text = fence @ js ''html'' @ [0x0A] @ js ''<p>a</p>'' @ fence"

text \<open>Example states of the page, networks and models.\<close>

definition item1 :: output_item where
  "item1 = \<lparr>fullResponse = Some example_text, code = Some (js ''<div>hi</div>''), oid = 1\<rparr>"

definition item2 :: output_item where
  "item2 = \<lparr>fullResponse = Some html_tagged_text, code = Some (js ''<p>a</p>''), oid = 2\<rparr>"

definition ready_state :: home_state where
  "ready_state =
     \<lparr>imageBase64 = js ''data:image/png;base64,AAAA'', outputs = [item1, item2],
      loading = False, hasStartedGenerating = True, concurrentRequests = 2,
      prompt = js ''Turn the image into HTML.'', showErrorModal = False, userInput = []\<rparr>"

definition no_prompt_state :: home_state where
  "no_prompt_state = ready_state\<lparr>outputs := [], prompt := []\<rparr>"

definition flaky_fetch :: "nat \<Rightarrow> request \<Rightarrow> json settled" where
  "flaky_fetch i req =
     (if i = 1 then (3, Inl NetworkError)
      else (5, Inr \<lparr>fullResponse = Some example_text, code = Some (js ''<div>hi</div>''),
                    message = None\<rparr>))"

definition flaky_model :: "nat \<Rightarrow> model_call \<Rightarrow> jsstring settled" where
  "flaky_model i call = (if i = 1 then (3, Inl ApiError) else (5, Inr js_tagged_text))"

text \<open>Request 0 settles at time 9, after request 1, which settles at time 2.\<close>

definition good_fetch :: "nat \<Rightarrow> request \<Rightarrow> json settled" where
  "good_fetch i req =
     (if i = 0
      then (9, Inr \<lparr>fullResponse = Some example_text, code = Some (js ''<div>hi</div>''),
                    message = None\<rparr>)
      else (2, Inr \<lparr>fullResponse = Some html_tagged_text, code = Some (js ''<p>a</p>''),
                    message = None\<rparr>))"

definition good_model :: "nat \<Rightarrow> model_call \<Rightarrow> jsstring settled" where
  "good_model i call = (if i = 0 then (9, Inr js_tagged_text) else (2, Inr unterminated_text))"

definition failing_model :: "nat \<Rightarrow> model_call \<Rightarrow> js_error + jsstring" where
  "failing_model i call = (if i = 1 then Inl ApiError else Inr example_text)"

text \<open>Models that answer with the prompt they were called with.\<close>

definition echo_model_api :: "model_call \<Rightarrow> js_error + jsstring" where
  "echo_model_api call = Inr (call_prompt call)"

definition echo_model_app :: "model_call \<Rightarrow> jsstring settled" where
  "echo_model_app call = (0, Inr (call_prompt call))"

section \<open>Facts about fences and the shared part of the patterns\<close>

lemma is_ws_not_backtick: "is_ws c \<Longrightarrow> c \<noteq> 0x60"
  by (auto simp: is_ws_def)

lemma fence_starts: "take (length fence) (c # cs) = fence \<Longrightarrow> c = 0x60"
  by (simp add: fence_def)

lemma find_fence_sound: "find_fence s = Some (b, a) \<Longrightarrow> s = b @ fence @ a"
proof (induction s arbitrary: b)
  case Nil
  then show ?case by simp
next
  case (Cons c cs)
  show ?case
  proof (cases "take (length fence) (c # cs) = fence")
    case True
    with Cons.prems have ba: "b = []" "a = drop (length fence) (c # cs)" by auto
    have "take (length fence) (c # cs) @ drop (length fence) (c # cs) = c # cs"
      by (rule append_take_drop_id)
    then have "fence @ drop (length fence) (c # cs) = c # cs" by (simp only: True)
    then show ?thesis by (simp only: ba append_Nil)
  next
    case False
    with Cons.prems obtain b' where "find_fence cs = Some (b', a)" "b = c # b'"
      by (auto split: prod.splits)
    with Cons.IH show ?thesis by simp
  qed
qed

lemma find_fence_skip:
  "0x60 \<notin> set w \<Longrightarrow> find_fence (w @ r) = map_option (\<lambda>(b, a). (w @ b, a)) (find_fence r)"
proof (induction w)
  case Nil
  show ?case by (simp add: option.map_ident split_def)
next
  case (Cons c w)
  then have "c \<noteq> 0x60" by auto
  then have "take (length fence) (c # w @ r) \<noteq> fence" using fence_starts by blast
  with Cons show ?case by (simp add: option.map_comp comp_def split_def)
qed

lemma find_fence_complete: "find_fence (b @ fence @ a) \<noteq> None"
proof (induction b)
  case Nil
  show ?case by (simp add: fence_def)
next
  case (Cons c b)
  then show ?case by auto
qed

lemma find_fence_drop: "find_fence s = None \<Longrightarrow> find_fence (drop n s) = None"
proof (induction s arbitrary: n)
  case Nil
  show ?case by simp
next
  case (Cons c cs)
  then have "find_fence cs = None" by (auto split: if_splits)
  with Cons.IH Cons.prems show ?case by (cases n) auto
qed

lemma find_fence_dropWhile_ws:
  "find_fence s = Some (b, a) \<Longrightarrow> find_fence (dropWhile is_ws s) = Some (dropWhile is_ws b, a)"
proof (induction s arbitrary: b)
  case Nil
  then show ?case by simp
next
  case (Cons c cs)
  show ?case
  proof (cases "take (length fence) (c # cs) = fence")
    case True
    then have "c = 0x60" by (rule fence_starts)
    then have "\<not> is_ws c" using is_ws_not_backtick by blast
    with True Cons.prems show ?thesis by auto
  next
    case False
    with Cons.prems obtain b' where b': "find_fence cs = Some (b', a)" "b = c # b'"
      by (auto split: prod.splits)
    show ?thesis
    proof (cases "is_ws c")
      case True
      with b' Cons.IH show ?thesis by simp
    next
      case nws: False
      with Cons.prems b' show ?thesis by simp
    qed
  qed
qed

lemma find_fence_dropWhile_ws_None:
  "find_fence s = None \<Longrightarrow> find_fence (dropWhile is_ws s) = None"
  using find_fence_drop [of s "length (takeWhile is_ws s)"] by (simp add: dropWhile_eq_drop)

lemma trim_dropWhile: "trim (dropWhile is_ws s) = trim s"
  by (simp add: trim_def)

lemma in_class_AnyUnit: "in_class AnyUnit = (\<lambda>c. True)"
  by (rule ext) simp

lemma lazy_capture:
  "lazy_star (in_class AnyUnit)
     (\<lambda>st'. matcher (Lit fence) Some (fst st', Some (take (length (p @ s) - length (fst st')) (p @ s)))) s cap
   = map_option (\<lambda>(b, a). (a, Some (p @ b))) (find_fence s)"
proof (induction s arbitrary: p)
  case Nil
  have "fence \<noteq> []" by (simp add: fence_def)
  then show ?case by simp
next
  case (Cons c cs)
  show ?case
  proof (cases "take (length fence) (c # cs) = fence")
    case True
    then show ?thesis by simp
  next
    case False
    have "lazy_star (in_class AnyUnit)
     (\<lambda>st'. matcher (Lit fence) Some (fst st', Some (take (length ((p @ [c]) @ cs) - length (fst st')) ((p @ [c]) @ cs)))) cs cap
      = map_option (\<lambda>(b, a). (a, Some ((p @ [c]) @ b))) (find_fence cs)"
      by (rule Cons.IH)
    with False show ?thesis
      by (simp add: in_class_AnyUnit option.map_comp comp_def split_def cong: if_cong)
  qed
qed

lemma capture_tail_eq: "capture_tail (s, cap) = map_option (\<lambda>(b, a). (a, Some b)) (find_fence s)"
proof -
  have "capture_tail (s, cap) =
      lazy_star (in_class AnyUnit)
        (\<lambda>st'. matcher (Lit fence) Some (fst st', Some (take (length s - length (fst st')) s))) s cap"
    unfolding capture_tail_def by (simp only: matcher.simps fst_conv snd_conv)
  also have "\<dots> = map_option (\<lambda>(b, a). (a, Some b)) (find_fence s)"
    using lazy_capture [of "[]" s cap] by (simp only: append_Nil)
  finally show ?thesis .
qed

lemma greedy_ws_capture_tail: "greedy_star is_ws capture_tail s cap = capture_tail (dropWhile is_ws s, cap)"
proof (induction s)
  case Nil
  show ?case by simp
next
  case (Cons c cs)
  show ?case
  proof (cases "is_ws c")
    case False
    then show ?thesis by simp
  next
    case True
    show ?thesis
    proof (cases "find_fence (c # cs)")
      case None
      then have "find_fence (dropWhile is_ws cs) = None"
        using find_fence_dropWhile_ws_None [of "c # cs"] True by simp
      with None True Cons show ?thesis by (simp add: capture_tail_eq)
    next
      case (Some ba)
      then obtain b a where "find_fence (c # cs) = Some (b, a)" by (cases ba) auto
      from find_fence_dropWhile_ws [OF this] True
      have "find_fence (dropWhile is_ws cs) = Some (dropWhile is_ws b, a)" by simp
      with True Cons show ?thesis by (simp add: capture_tail_eq)
    qed
  qed
qed

lemma ws_tail_eq:
  "ws_tail (s, cap) = map_option (\<lambda>(b, a). (a, Some (dropWhile is_ws b))) (find_fence s)"
proof -
  have "ws_tail (s, cap) = greedy_star is_ws capture_tail s cap"
  proof -
    have "in_class Whitespace = is_ws" by (rule ext) simp
    then show ?thesis
      unfolding ws_tail_def capture_tail_def by (simp only: matcher.simps fst_conv snd_conv)
  qed
  also have "\<dots> = capture_tail (dropWhile is_ws s, cap)" by (rule greedy_ws_capture_tail)
  also have "\<dots> = map_option (\<lambda>(b, a). (a, Some (dropWhile is_ws b))) (find_fence s)"
  proof (cases "find_fence s")
    case None
    then show ?thesis by (simp add: capture_tail_eq find_fence_dropWhile_ws_None)
  next
    case (Some ba)
    then obtain b a where "find_fence s = Some (b, a)" by (cases ba) auto
    then show ?thesis by (simp add: capture_tail_eq find_fence_dropWhile_ws)
  qed
  finally show ?thesis .
qed

lemma ws_tail_None_iff: "ws_tail (s, cap) = None \<longleftrightarrow> find_fence s = None"
  by (simp add: ws_tail_eq)

lemma find_fence_literal:
  assumes "take (length w) s = w" and "0x60 \<notin> set w"
  shows "find_fence s = None \<longleftrightarrow> find_fence (drop (length w) s) = None"
proof -
  have "s = w @ drop (length w) s" using assms(1) append_take_drop_id [of "length w" s] by simp
  then have "find_fence s = map_option (\<lambda>(b, a). (w @ b, a)) (find_fence (drop (length w) s))"
    using find_fence_skip [OF assms(2), of "drop (length w) s"] by simp
  then show ?thesis by simp
qed

lemma opt_literal:
  assumes "0x60 \<notin> set w"
  shows "matcher (Opt (Lit w)) ws_tail (s, cap) = ws_tail (strip_lit w s, cap)"
proof (cases "take (length w) s = w")
  case False
  then show ?thesis by (simp add: strip_lit_def)
next
  case True
  show ?thesis
  proof (cases "ws_tail (drop (length w) s, cap)")
    case (Some r)
    with True show ?thesis by (simp add: strip_lit_def)
  next
    case None
    then have "find_fence (drop (length w) s) = None" by (simp add: ws_tail_None_iff)
    then have "find_fence s = None" using find_fence_literal [OF True assms] by simp
    then have "ws_tail (s, cap) = None" by (simp add: ws_tail_None_iff)
    with None True show ?thesis by (simp add: strip_lit_def)
  qed
qed

lemma opt_alt_literal:
  assumes "0x60 \<notin> set w" "0x60 \<notin> set v"
  shows "matcher (Opt (Alt (Lit w) (Lit v))) ws_tail (s, cap) =
    ws_tail (if take (length w) s = w then drop (length w) s else strip_lit v s, cap)"
proof (cases "find_fence s")
  case None
  then have "\<And>n. ws_tail (drop n s, cap) = None"
    by (simp add: ws_tail_None_iff find_fence_drop)
  moreover have "ws_tail (s, cap) = None" using None by (simp add: ws_tail_None_iff)
  ultimately show ?thesis by (simp add: strip_lit_def)
next
  case (Some ba)
  have w: "take (length w) s = w \<Longrightarrow> ws_tail (drop (length w) s, cap) \<noteq> None"
    using find_fence_literal [OF _ assms(1), of s] Some by (simp add: ws_tail_None_iff)
  have v: "take (length v) s = v \<Longrightarrow> ws_tail (drop (length v) s, cap) \<noteq> None"
    using find_fence_literal [OF _ assms(2), of s] Some by (simp add: ws_tail_None_iff)
  show ?thesis using w v by (auto simp: strip_lit_def split: option.splits)
qed

lemma html_no_backtick: "0x60 \<notin> set (js ''html'')"
  by (simp add: js_def)

lemma javascript_no_backtick: "0x60 \<notin> set (js ''javascript'')"
  by (simp add: js_def)

lemma js_no_backtick: "0x60 \<notin> set (js ''js'')"
  by (simp add: js_def)

lemma match_api:
  "matcher regex_api Some (s, None) =
     (if take (length fence) s = fence
      then ws_tail (strip_api (drop (length fence) s), None) else None)"
proof -
  have "matcher regex_api Some (s, None) =
      matcher (Lit fence) (matcher (Opt (Lit (js ''html''))) ws_tail) (s, None)"
    unfolding regex_api_def ws_tail_def by (simp only: matcher.simps(2))
  also have "\<dots> = (if take (length fence) s = fence
      then matcher (Opt (Lit (js ''html''))) ws_tail (drop (length fence) s, None) else None)"
    by (simp only: matcher.simps(1) fst_conv snd_conv)
  also have "\<dots> = (if take (length fence) s = fence
      then ws_tail (strip_api (drop (length fence) s), None) else None)"
    by (simp only: opt_literal [OF html_no_backtick] strip_api_def)
  finally show ?thesis .
qed

lemma match_app:
  "matcher regex_app Some (s, None) =
     (if take (length fence) s = fence
      then ws_tail (strip_app (drop (length fence) s), None) else None)"
proof -
  have "matcher regex_app Some (s, None) =
      matcher (Lit fence)
        (matcher (Opt (Alt (Lit (js ''javascript'')) (Lit (js ''js'')))) ws_tail) (s, None)"
    unfolding regex_app_def ws_tail_def by (simp only: matcher.simps(2))
  also have "\<dots> = (if take (length fence) s = fence
      then matcher (Opt (Alt (Lit (js ''javascript'')) (Lit (js ''js'')))) ws_tail
             (drop (length fence) s, None)
      else None)"
    by (simp only: matcher.simps(1) fst_conv snd_conv)
  also have "\<dots> = (if take (length fence) s = fence
      then ws_tail (strip_app (drop (length fence) s), None) else None)"
    by (simp only: opt_alt_literal [OF javascript_no_backtick js_no_backtick] strip_app_def)
  finally show ?thesis .
qed

lemma strip_api_None: "find_fence (strip_api s) = None \<longleftrightarrow> find_fence s = None"
  using find_fence_literal [OF _ html_no_backtick, of s] by (simp add: strip_api_def strip_lit_def)

lemma strip_app_None: "find_fence (strip_app s) = None \<longleftrightarrow> find_fence s = None"
  using find_fence_literal [OF _ javascript_no_backtick, of s]
    find_fence_literal [OF _ js_no_backtick, of s]
  by (simp add: strip_app_def strip_lit_def)

lemma exec_generic:
  assumes m: "\<And>s. matcher R Some (s, None) =
     (if take (length fence) s = fence then ws_tail (S (drop (length fence) s), None) else None)"
    and S: "\<And>x. find_fence (S x) = None \<longleftrightarrow> find_fence x = None"
  shows "exec R s =
     (case find_fence s of
        None \<Rightarrow> None
      | Some (before, rest) \<Rightarrow>
          map_option (\<lambda>(b, a). Some (dropWhile is_ws b)) (find_fence (S rest)))"
proof (induction s)
  case Nil
  have "fence \<noteq> []" by (simp add: fence_def)
  then show ?case by (simp add: m)
next
  case (Cons c cs)
  show ?case
  proof (cases "take (length fence) (c # cs) = fence")
    case False
    then have "matcher R Some (c # cs, None) = None" by (simp add: m)
    with False Cons show ?thesis by (cases "find_fence cs") (auto simp: split_def)
  next
    case True
    let ?r = "drop (length fence) (c # cs)"
    have ff: "find_fence (c # cs) = Some ([], ?r)" using True by simp
    show ?thesis
    proof (cases "find_fence (S ?r)")
      case (Some ba)
      then have "matcher R Some (c # cs, None) =
          Some (snd ba, Some (dropWhile is_ws (fst ba)))"
        using True by (simp add: m ws_tail_eq split_def)
      with Some ff show ?thesis by (simp add: split_def)
    next
      case None
      then have mn: "matcher R Some (c # cs, None) = None"
        using True by (simp add: m ws_tail_eq)
      from None have rn: "find_fence ?r = None" by (simp add: S)
      have "exec R cs = None"
      proof (cases "find_fence cs")
        case None
        with Cons show ?thesis by simp
      next
        case (Some ba)
        then obtain b r' where br: "find_fence cs = Some (b, r')" by (cases ba) auto
        have cs: "cs = b @ fence @ r'" using br by (rule find_fence_sound)
        have "?r = drop (Suc (Suc 0)) cs" by (simp add: fence_def)
        then have "drop (Suc (length b)) ?r = drop (Suc (Suc (Suc (length b)))) cs" by simp
        also have "\<dots> = drop (Suc (Suc (Suc (length b)))) (b @ fence @ r')" using cs by simp
        also have "\<dots> = r'" by (simp add: fence_def)
        finally have "r' = drop (Suc (length b)) ?r" by simp
        then have "find_fence r' = None" using rn find_fence_drop by metis
        then have "find_fence (S r') = None" by (simp add: S)
        with br Cons show ?thesis by simp
      qed
      with mn None ff show ?thesis by simp
    qed
  qed
qed

lemma exec_api:
  "exec regex_api s =
     (case find_fence s of
        None \<Rightarrow> None
      | Some (before, rest) \<Rightarrow>
          map_option (\<lambda>(b, a). Some (dropWhile is_ws b)) (find_fence (strip_api rest)))"
  by (rule exec_generic [OF match_api strip_api_None])

lemma exec_app:
  "exec regex_app s =
     (case find_fence s of
        None \<Rightarrow> None
      | Some (before, rest) \<Rightarrow>
          map_option (\<lambda>(b, a). Some (dropWhile is_ws b)) (find_fence (strip_app rest)))"
  by (rule exec_generic [OF match_app strip_app_None])

section \<open>What the extractors return\<close>

lemma extractedCode_api_eq:
  "extractedCode_api s =
     (case find_fence s of
        None \<Rightarrow> Inr []
      | Some (before, rest) \<Rightarrow>
          (case find_fence (strip_api rest) of
             None \<Rightarrow> Inr []
           | Some (b, a) \<Rightarrow> Inr (trim b)))"
  by (simp add: extractedCode_api_def exec_api trim_dropWhile split: option.splits prod.splits)

lemma extractedCode_app_eq:
  "extractedCode_app s =
     (case find_fence s of
        None \<Rightarrow> Inr s
      | Some (before, rest) \<Rightarrow>
          (case find_fence (strip_app rest) of
             None \<Rightarrow> Inr s
           | Some (b, a) \<Rightarrow> Inr (trim b)))"
  by (simp add: extractedCode_app_def exec_app trim_dropWhile split: option.splits prod.splits)

lemma is_tag_char_no_backtick: "0x60 \<notin> set (takeWhile is_tag_char r)"
  using set_takeWhileD [of "0x60" is_tag_char r] by (auto simp: is_tag_char_def)

lemma take_eq_length: "take (length w) xs = w \<Longrightarrow> length w \<le> length xs"
proof -
  assume "take (length w) xs = w"
  then have "length (take (length w) xs) = length w" by simp
  then show ?thesis by (simp add: min_def split: if_splits)
qed

lemma take_append_le: "n \<le> length xs \<Longrightarrow> take n (xs @ ys) = take n xs"
  by simp

lemma drop_append_le: "n \<le> length xs \<Longrightarrow> drop n (xs @ ys) = drop n xs @ ys"
  by simp

lemma take_takeWhile:
  assumes "\<forall>c\<in>set w. P c"
  shows "take (length w) (takeWhile P r) = w \<longleftrightarrow> take (length w) r = w"
proof
  assume "take (length w) r = w"
  then have "r = w @ drop (length w) r" using append_take_drop_id [of "length w" r] by simp
  then have "takeWhile P r = w @ takeWhile P (drop (length w) r)"
    using assms takeWhile_append2 [of w P "drop (length w) r"] by simp
  then show "take (length w) (takeWhile P r) = w" by simp
next
  assume a: "take (length w) (takeWhile P r) = w"
  then have "length w \<le> length (takeWhile P r)" by (rule take_eq_length)
  then have "take (length w) (takeWhile P r @ dropWhile P r) = take (length w) (takeWhile P r)"
    by (rule take_append_le)
  then have "take (length w) r = take (length w) (takeWhile P r)"
    by (simp only: takeWhile_dropWhile_id)
  with a show "take (length w) r = w" by simp
qed

lemma drop_takeWhile:
  assumes "\<forall>c\<in>set w. P c" and "take (length w) r = w"
  shows "drop (length w) r = drop (length w) (takeWhile P r) @ dropWhile P r"
proof -
  have "length w \<le> length (takeWhile P r)"
    using take_takeWhile [OF assms(1), of r] assms(2) by (simp add: take_eq_length)
  then have "drop (length w) (takeWhile P r @ dropWhile P r) =
      drop (length w) (takeWhile P r) @ dropWhile P r" by (rule drop_append_le)
  then show ?thesis by (simp only: takeWhile_dropWhile_id)
qed

lemma strip_lit_tag:
  assumes "\<forall>c\<in>set w. P c"
  shows "strip_lit w r = strip_lit w (takeWhile P r) @ dropWhile P r"
  using take_takeWhile [OF assms, of r] drop_takeWhile [OF assms, of r]
  by (simp add: strip_lit_def)

lemma html_tag_chars: "\<forall>c\<in>set (js ''html''). is_tag_char c"
  by (simp add: js_def is_tag_char_def is_ws_def)

lemma javascript_tag_chars: "\<forall>c\<in>set (js ''javascript''). is_tag_char c"
  by (simp add: js_def is_tag_char_def is_ws_def)

lemma js_tag_chars: "\<forall>c\<in>set (js ''js''). is_tag_char c"
  by (simp add: js_def is_tag_char_def is_ws_def)

lemma strip_api_tag:
  "strip_api r = strip_api (takeWhile is_tag_char r) @ dropWhile is_tag_char r"
  unfolding strip_api_def by (rule strip_lit_tag [OF html_tag_chars])

lemma strip_app_tag:
  "strip_app r = strip_app (takeWhile is_tag_char r) @ dropWhile is_tag_char r"
  using take_takeWhile [OF javascript_tag_chars, of r] drop_takeWhile [OF javascript_tag_chars, of r]
    strip_lit_tag [OF js_tag_chars, of r]
  by (simp add: strip_app_def)

lemma strip_lit_set: "set (strip_lit w s) \<subseteq> set s"
  by (auto simp: strip_lit_def dest: in_set_dropD)

lemma strip_api_set: "set (strip_api s) \<subseteq> set s"
  unfolding strip_api_def by (rule strip_lit_set)

lemma strip_app_set: "set (strip_app s) \<subseteq> set s"
  using strip_lit_set [of "js ''js''" s] by (auto simp: strip_app_def dest: in_set_dropD)

text \<open>The extractors on a text with a first fenced block.\<close>

lemma block_api:
  assumes "first_fenced_block text = Some (tag, inner)"
  shows "extractedCode_api text = Inr (trim (strip_api tag @ inner))"
proof -
  from assms obtain before rest after where
    f: "find_fence text = Some (before, rest)" and
    g: "find_fence (dropWhile is_tag_char rest) = Some (inner, after)" and
    t: "tag = takeWhile is_tag_char rest"
    by (auto simp: first_fenced_block_def split: option.splits prod.splits)
  have "0x60 \<notin> set (strip_api tag)"
    using strip_api_set [of tag] is_tag_char_no_backtick [of rest] t by auto
  then have "find_fence (strip_api tag @ dropWhile is_tag_char rest) =
      Some (strip_api tag @ inner, after)"
    using find_fence_skip [of "strip_api tag" "dropWhile is_tag_char rest"] g by simp
  then have "find_fence (strip_api rest) = Some (strip_api tag @ inner, after)"
    using strip_api_tag [of rest] t by simp
  with f show ?thesis by (simp add: extractedCode_api_eq)
qed

lemma block_app:
  assumes "first_fenced_block text = Some (tag, inner)"
  shows "extractedCode_app text = Inr (trim (strip_app tag @ inner))"
proof -
  from assms obtain before rest after where
    f: "find_fence text = Some (before, rest)" and
    g: "find_fence (dropWhile is_tag_char rest) = Some (inner, after)" and
    t: "tag = takeWhile is_tag_char rest"
    by (auto simp: first_fenced_block_def split: option.splits prod.splits)
  have "0x60 \<notin> set (strip_app tag)"
    using strip_app_set [of tag] is_tag_char_no_backtick [of rest] t by auto
  then have "find_fence (strip_app tag @ dropWhile is_tag_char rest) =
      Some (strip_app tag @ inner, after)"
    using find_fence_skip [of "strip_app tag" "dropWhile is_tag_char rest"] g by simp
  then have "find_fence (strip_app rest) = Some (strip_app tag @ inner, after)"
    using strip_app_tag [of rest] t by simp
  with f show ?thesis by (simp add: extractedCode_app_eq)
qed

lemma no_block:
  assumes "first_fenced_block text = None" and "find_fence text = Some (before, rest)"
  shows "find_fence rest = None"
proof -
  from assms have "find_fence (dropWhile is_tag_char rest) = None"
    by (auto simp: first_fenced_block_def split: option.splits)
  then have "find_fence (takeWhile is_tag_char rest @ dropWhile is_tag_char rest) = None"
    using find_fence_skip [OF is_tag_char_no_backtick, of rest "dropWhile is_tag_char rest"]
    by simp
  then show ?thesis by simp
qed

lemma no_block_api:
  assumes "first_fenced_block text = None"
  shows "extractedCode_api text = Inr []"
proof (cases "find_fence text")
  case None
  then show ?thesis by (simp add: extractedCode_api_eq)
next
  case (Some br)
  then obtain before rest where f: "find_fence text = Some (before, rest)" by (cases br) auto
  have "find_fence (strip_api rest) = None"
    using no_block [OF assms f] by (simp add: strip_api_None)
  with f show ?thesis by (simp add: extractedCode_api_eq)
qed

lemma no_block_app:
  assumes "first_fenced_block text = None"
  shows "extractedCode_app text = Inr text"
proof (cases "find_fence text")
  case None
  then show ?thesis by (simp add: extractedCode_app_eq)
next
  case (Some br)
  then obtain before rest where f: "find_fence text = Some (before, rest)" by (cases br) auto
  have "find_fence (strip_app rest) = None"
    using no_block [OF assms f] by (simp add: strip_app_None)
  with f show ?thesis by (simp add: extractedCode_app_eq)
qed

lemma find_fence_append:
  "find_fence s = Some (b, a) \<Longrightarrow> find_fence (s @ m) = Some (b, a @ m)"
proof (induction s arbitrary: b)
  case Nil
  then show ?case by simp
next
  case (Cons c cs)
  show ?case
  proof (cases "take (length fence) (c # cs) = fence")
    case True
    then have "length fence \<le> length (c # cs)" by (rule take_eq_length)
    then have "take (length fence) ((c # cs) @ m) = take (length fence) (c # cs)"
      "drop (length fence) ((c # cs) @ m) = drop (length fence) (c # cs) @ m"
      by (rule take_append_le, rule drop_append_le)
    with True Cons.prems show ?thesis by simp
  next
    case False
    with Cons.prems obtain b' where b': "find_fence cs = Some (b', a)" "b = c # b'"
      by (auto split: prod.splits)
    have "take (length fence) ((c # cs) @ m) \<noteq> fence"
    proof
      assume e: "take (length fence) ((c # cs) @ m) = fence"
      have "cs = b' @ fence @ a" using b'(1) by (rule find_fence_sound)
      then have "length fence \<le> length (c # cs)" by simp
      then have "take (length fence) ((c # cs) @ m) = take (length fence) (c # cs)"
        by (rule take_append_le)
      with e False show False by simp
    qed
    with b' Cons.IH show ?thesis by simp
  qed
qed

lemma first_fenced_block_append:
  assumes "first_fenced_block text = Some x"
  shows "first_fenced_block (text @ later) = Some x"
proof -
  from assms obtain before rest inner after where
    f: "find_fence text = Some (before, rest)" and
    g: "find_fence (dropWhile is_tag_char rest) = Some (inner, after)" and
    x: "x = (takeWhile is_tag_char rest, inner)"
    by (auto simp: first_fenced_block_def split: option.splits prod.splits)
  have "\<not> (\<forall>c\<in>set rest. is_tag_char c)"
  proof
    assume "\<forall>c\<in>set rest. is_tag_char c"
    then have "dropWhile is_tag_char rest = []" by simp
    with g show False by simp
  qed
  then obtain c where c: "c \<in> set rest" "\<not> is_tag_char c" by blast
  then have "takeWhile is_tag_char (rest @ later) = takeWhile is_tag_char rest"
    "dropWhile is_tag_char (rest @ later) = dropWhile is_tag_char rest @ later"
    by (simp_all add: takeWhile_append1 dropWhile_append1)
  with find_fence_append [OF f, of later] find_fence_append [OF g, of later] x
  show ?thesis by (simp add: first_fenced_block_def)
qed

text \<open>A text has a fenced block exactly when it holds two fence markers that do not overlap.\<close>

lemma find_fence_first: "find_fence (a @ fence @ x) = Some (b, r) \<Longrightarrow> length b \<le> length a"
proof (induction a arbitrary: b)
  case Nil
  then show ?case by (simp add: fence_def)
next
  case (Cons c a)
  show ?case
  proof (cases "take (length fence) (c # a @ fence @ x) = fence")
    case True
    with Cons.prems show ?thesis by simp
  next
    case False
    with Cons.prems obtain b' where "find_fence (a @ fence @ x) = Some (b', r)" "b = c # b'"
      by (auto split: prod.splits)
    with Cons.IH show ?thesis by auto
  qed
qed

lemma has_block_decompose:
  assumes "has_fenced_block text"
  shows "\<exists>a b c. text = a @ fence @ b @ fence @ c"
proof -
  from assms obtain before rest inner after where
    f: "find_fence text = Some (before, rest)" and
    g: "find_fence (dropWhile is_tag_char rest) = Some (inner, after)"
    by (auto simp: has_fenced_block_def first_fenced_block_def split: option.splits prod.splits)
  have t: "text = before @ fence @ rest" using f by (rule find_fence_sound)
  have d: "dropWhile is_tag_char rest = inner @ fence @ after"
    using g by (rule find_fence_sound)
  have "rest = takeWhile is_tag_char rest @ dropWhile is_tag_char rest"
    by (simp only: takeWhile_dropWhile_id)
  also have "\<dots> = (takeWhile is_tag_char rest @ inner) @ fence @ after"
    by (simp only: d append_assoc)
  finally have "text = before @ fence @ (takeWhile is_tag_char rest @ inner) @ fence @ after"
    using t by (simp only:)
  then show ?thesis by blast
qed

lemma has_block_compose:
  assumes t: "text = a @ fence @ b @ fence @ c"
  shows "has_fenced_block text"
proof -
  have "find_fence (a @ fence @ (b @ fence @ c)) \<noteq> None" by (rule find_fence_complete)
  then obtain before rest where f0: "find_fence (a @ fence @ b @ fence @ c) = Some (before, rest)"
    by (cases "find_fence (a @ fence @ b @ fence @ c)") auto
  then have f: "find_fence text = Some (before, rest)" by (simp only: t)
  have "length before \<le> length a" using f0 by (rule find_fence_first)
  then obtain k where k: "length a = length before + k" using le_Suc_ex by blast
  have t': "text = before @ fence @ rest" using f by (rule find_fence_sound)
  have "drop (length a + length fence) (a @ fence @ b @ fence @ c) = b @ fence @ c" by simp
  then have 1: "drop (length a + length fence) text = b @ fence @ c" by (simp only: t)
  have "drop (length before + (length fence + k)) (before @ fence @ rest) = drop k rest"
    by simp
  then have "drop (length a + length fence) (before @ fence @ rest) = drop k rest"
    by (simp only: k add.assoc add.commute [of k])
  then have 2: "drop (length a + length fence) text = drop k rest"
    by (simp only: t' [symmetric])
  have "drop k rest = b @ fence @ c" using 1 unfolding 2 .
  then have dk: "find_fence (drop k rest) \<noteq> None"
    using find_fence_complete [of b c] by simp
  have "first_fenced_block text \<noteq> None"
  proof
    assume "first_fenced_block text = None"
    then have "find_fence rest = None" using f by (rule no_block)
    then have "find_fence (drop k rest) = None" by (rule find_fence_drop)
    with dk show False by simp
  qed
  then show ?thesis by (simp add: has_fenced_block_def)
qed

lemma has_fenced_block_iff:
  "has_fenced_block text \<longleftrightarrow> (\<exists>a b c. text = a @ fence @ b @ fence @ c)"
  using has_block_decompose has_block_compose by blast

section \<open>Claims about the extractors\<close>

lemma strip_api_Nil: "strip_api [] = []"
  by (simp add: strip_api_def strip_lit_def)

lemma strip_api_html: "strip_api (js ''html'') = []"
  by (simp add: strip_api_def strip_lit_def)

lemma strip_app_Nil: "strip_app [] = []"
  by (simp add: strip_app_def strip_lit_def js_def)

lemma strip_app_javascript: "strip_app (js ''javascript'') = []"
  by (simp add: strip_app_def strip_lit_def)

lemma strip_app_js: "strip_app (js ''js'') = []"
  by (simp add: strip_app_def strip_lit_def js_def)

text \<open>
  Claim C1, as amended. The claim says that each extractor returns the trimmed inner
  content of the first fenced block of every text that has one. That holds when the
  block's language tag is absent or is a tag the extractor's own pattern names: \<open>html\<close>
  for the API route, \<open>javascript\<close> or \<open>js\<close> for the client-side app. Whatever follows the
  first block (\<open>later\<close>, further blocks included) does not change the result.
\<close>

theorem first_block_extracted:
  assumes "first_fenced_block text = Some (tag, inner)"
  shows "(tag = [] \<or> tag = js ''html'' \<longrightarrow>
            extractedCode_api (text @ later) = Inr (trim inner)) \<and>
         (tag = [] \<or> tag = js ''javascript'' \<or> tag = js ''js'' \<longrightarrow>
            extractedCode_app (text @ later) = Inr (trim inner))"
proof -
  have b: "first_fenced_block (text @ later) = Some (tag, inner)"
    using assms by (rule first_fenced_block_append)
  show ?thesis
    using block_api [OF b] block_app [OF b]
    by (auto simp: strip_api_Nil strip_api_html strip_app_Nil strip_app_javascript strip_app_js)
qed

text \<open>
  The theorem on a text with two blocks, the first one untagged, alone and followed by
  one more block.
\<close>

theorem first_block_extracted_witness:
  "first_fenced_block two_blocks_text = Some ([], [0x0A] @ js ''  let a = 1;  '' @ [0x0A]) \<and>
   extractedCode_api two_blocks_text = Inr (js ''let a = 1;'') \<and>
   extractedCode_app two_blocks_text = Inr (js ''let a = 1;'') \<and>
   extractedCode_api (two_blocks_text @ example_text) = Inr (js ''let a = 1;'') \<and>
   extractedCode_app (two_blocks_text @ example_text) = Inr (js ''let a = 1;'')"
proof -
  have f: "first_fenced_block two_blocks_text = Some ([], [0x0A] @ js ''  let a = 1;  '' @ [0x0A])"
    by code_simp
  have t: "trim ([0x0A] @ js ''  let a = 1;  '' @ [0x0A]) = js ''let a = 1;''"
    by code_simp
  show ?thesis
    using f first_block_extracted [OF f, of "[]", unfolded t]
      first_block_extracted [OF f, of example_text, unfolded t]
    by simp
qed

text \<open>
  Claim C1 as stated fails on a block tagged \<open>python\<close>: its inner content trims to
  \<open>print(1)\<close>, and both extractors return the tag, a newline and \<open>print(1)\<close>.
\<close>

theorem first_block_unknown_tag_counterexample:
  "first_fenced_block python_text = Some (js ''python'', [0x0A] @ js ''print(1)'' @ [0x0A]) \<and>
   trim ([0x0A] @ js ''print(1)'' @ [0x0A]) = js ''print(1)'' \<and>
   extractedCode_api python_text = Inr (js ''python'' @ [0x0A] @ js ''print(1)'') \<and>
   extractedCode_app python_text = Inr (js ''python'' @ [0x0A] @ js ''print(1)'')"
  by code_simp

text \<open>
  Claim C2. On a text with no fenced block the API route's extractor returns the empty
  string and the client-side app's extractor returns the text unchanged. A text has no
  fenced block when it does not hold two fence markers that do not overlap
  (\<open>has_fenced_block_iff\<close>): no fence at all, or a fence that is never closed.
\<close>

theorem no_block_fallback:
  assumes "\<not> has_fenced_block text"
  shows "extractedCode_api text = Inr [] \<and> extractedCode_app text = Inr text"
proof -
  from assms have n: "first_fenced_block text = None"
    unfolding has_fenced_block_def by blast
  show ?thesis using no_block_api [OF n] no_block_app [OF n] by simp
qed

text \<open>
  The theorem on a text whose only fence is never closed.
\<close>

theorem no_block_fallback_witness:
  "\<not> has_fenced_block unterminated_text \<and>
   extractedCode_api unterminated_text = Inr [] \<and>
   extractedCode_app unterminated_text = Inr unterminated_text"
proof -
  have h: "\<not> has_fenced_block unterminated_text" by code_simp
  show ?thesis using h no_block_fallback [OF h] by simp
qed

text \<open>
  Claim C3, as amended. On the example text of the specification the API route's
  extractor returns \<open><div>hi</div>\<close>. The client-side app's pattern names only the tags
  \<open>javascript\<close> and \<open>js\<close>, so its extractor returns the tag \<open>html\<close>, a newline and
  \<open><div>hi</div>\<close>.
\<close>

theorem example_extracted:
  "extractedCode_api example_text = Inr (js ''<div>hi</div>'') \<and>
   extractedCode_app example_text = Inr (js ''html'' @ [0x0A] @ js ''<div>hi</div>'')"
  by code_simp

text \<open>
  Claim C3 as stated fails for the client-side app's extractor.
\<close>

theorem example_app_counterexample:
  "extractedCode_app example_text \<noteq> Inr (js ''<div>hi</div>'')"
  by code_simp

text \<open>
  Claim C6, as amended. A language tag is not ignored whatever it is. Each extractor
  removes only the tag its own pattern names, when the block's tag starts with it
  (\<open>strip_api\<close>, \<open>strip_app\<close>); what is left of the tag, and the whole of any other tag,
  stays at the front of the text that is trimmed and returned.
\<close>

theorem tag_handling:
  assumes "first_fenced_block text = Some (tag, inner)"
  shows "extractedCode_api text = Inr (trim (strip_api tag @ inner)) \<and>
         extractedCode_app text = Inr (trim (strip_app tag @ inner))"
  using block_api [OF assms] block_app [OF assms] by simp

text \<open>
  The theorem on a block tagged \<open>html\<close>: the API route's extractor removes the tag, the
  client-side app's extractor keeps it.
\<close>

theorem tag_handling_witness:
  "first_fenced_block html_tagged_text = Some (js ''html'', [0x0A] @ js ''<p>a</p>'') \<and>
   strip_api (js ''html'') = [] \<and> strip_app (js ''html'') = js ''html'' \<and>
   extractedCode_api html_tagged_text = Inr (js ''<p>a</p>'') \<and>
   extractedCode_app html_tagged_text = Inr (js ''html'' @ [0x0A] @ js ''<p>a</p>'')"
proof -
  have f: "first_fenced_block html_tagged_text = Some (js ''html'', [0x0A] @ js ''<p>a</p>'')"
    by code_simp
  have s: "strip_api (js ''html'') = []" "strip_app (js ''html'') = js ''html''"
    by code_simp+
  have t: "trim ([] @ [0x0A] @ js ''<p>a</p>'') = js ''<p>a</p>''"
    "trim (js ''html'' @ [0x0A] @ js ''<p>a</p>'') = js ''html'' @ [0x0A] @ js ''<p>a</p>''"
    by code_simp+
  show ?thesis using f s tag_handling [OF f, unfolded s t] by simp
qed

text \<open>
  Claim C6 as stated fails on a block tagged \<open>js\<close>: the API route's extractor returns
  the tag with the code, so the two extractors differ on the same block.
\<close>

theorem tag_ignored_counterexample:
  "first_fenced_block js_tagged_text = Some (js ''js'', [0x0A] @ js ''let x;'' @ [0x0A]) \<and>
   extractedCode_api js_tagged_text = Inr (js ''js'' @ [0x0A] @ js ''let x;'') \<and>
   extractedCode_app js_tagged_text = Inr (js ''let x;'') \<and>
   extractedCode_api js_tagged_text \<noteq> extractedCode_app js_tagged_text"
  by code_simp

section \<open>The prompt sent to the model\<close>

lemma dropWhile_all_iff: "dropWhile P xs = [] \<longleftrightarrow> (\<forall>x\<in>set xs. P x)"
  by (rule dropWhile_eq_Nil_conv)

lemma trim_empty_iff: "trim u = [] \<longleftrightarrow> (\<forall>c\<in>set u. is_ws c)"
proof
  assume "\<forall>c\<in>set u. is_ws c"
  then show "trim u = []" by (auto simp: trim_def dest: set_dropWhileD)
next
  assume t: "trim u = []"
  show "\<forall>c\<in>set u. is_ws c"
  proof (rule ccontr)
    assume "\<not> (\<forall>c\<in>set u. is_ws c)"
    then have ne: "dropWhile is_ws u \<noteq> []" by (simp add: dropWhile_eq_Nil_conv)
    then have "\<not> is_ws (hd (dropWhile is_ws u))" by (rule hd_dropWhile)
    moreover have "hd (dropWhile is_ws u) \<in> set (dropWhile is_ws u)" using ne by simp
    ultimately have "\<not> (\<forall>c\<in>set (rev (dropWhile is_ws u)). is_ws c)" by auto
    then have "dropWhile is_ws (rev (dropWhile is_ws u)) \<noteq> []"
      by (simp only: dropWhile_eq_Nil_conv not_False_eq_True)
    with t show False by (simp add: trim_def)
  qed
qed

lemma calls_api:
  "snd (generateCodeFromImage_api model i p u) =
     [\<lparr>call_model = ''gemini-1.5-flash'', call_prompt = finalPrompt p u,
       call_data = image_data i, call_mimeType = ''image/jpeg''\<rparr>]"
  by (simp add: generateCodeFromImage_api_def Let_def)

lemma calls_app:
  "snd (generateCodeFromImage_app model i p u) =
     [\<lparr>call_model = ''gemini-2.5-flash'', call_prompt = finalPrompt p u,
       call_data = image_data i, call_mimeType = ''image/jpeg''\<rparr>]"
  by (simp add: generateCodeFromImage_app_def Let_def)

text \<open>
  Claim C10. In both variants of \<open>generateCodeFromImage\<close> the model is called once, and
  the prompt it is called with (\<open>sent\<close>) is the configured prompt itself when the user
  input is empty or all whitespace, and otherwise the prompt, a blank line, the text
  \<open>User input: \<close> and the user input as it was typed. The statement gives the result of
  the function as what it makes of the model's answer to exactly that call, for every
  model, so a body that called the model with another prompt would not satisfy it.
\<close>

theorem final_prompt_sent:
  assumes "((\<forall>c\<in>set u. is_ws c) \<longrightarrow> sent = p) \<and>
           (\<not> (\<forall>c\<in>set u. is_ws c) \<longrightarrow> sent = p @ [0x0A, 0x0A] @ js ''User input: '' @ u)"
  shows
    "generateCodeFromImage_api model_api i p u =
       (case model_api \<lparr>call_model = ''gemini-1.5-flash'', call_prompt = sent,
                        call_data = image_data i, call_mimeType = ''image/jpeg''\<rparr> of
          Inl e \<Rightarrow> Inl e
        | Inr response \<Rightarrow>
            (case extractedCode_api response of
               Inl e \<Rightarrow> Inl e
             | Inr extracted \<Rightarrow> Inr \<lparr>fullResponse = Some response, code = Some extracted\<rparr>),
        [\<lparr>call_model = ''gemini-1.5-flash'', call_prompt = sent,
          call_data = image_data i, call_mimeType = ''image/jpeg''\<rparr>]) \<and>
     generateCodeFromImage_app model_app i p u =
       ((fst (model_app \<lparr>call_model = ''gemini-2.5-flash'', call_prompt = sent,
                         call_data = image_data i, call_mimeType = ''image/jpeg''\<rparr>),
         (case snd (model_app \<lparr>call_model = ''gemini-2.5-flash'', call_prompt = sent,
                               call_data = image_data i, call_mimeType = ''image/jpeg''\<rparr>) of
            Inl e \<Rightarrow> Inl e
          | Inr response \<Rightarrow>
              (case extractedCode_app response of
                 Inl e \<Rightarrow> Inl e
               | Inr extracted \<Rightarrow> Inr \<lparr>fullResponse = Some response, code = Some extracted\<rparr>))),
        [\<lparr>call_model = ''gemini-2.5-flash'', call_prompt = sent,
          call_data = image_data i, call_mimeType = ''image/jpeg''\<rparr>])"
proof -
  have "finalPrompt p u = sent"
    using assms by (cases "\<forall>c\<in>set u. is_ws c") (simp_all add: finalPrompt_def trim_empty_iff)
  then show ?thesis
    by (simp add: generateCodeFromImage_api_def generateCodeFromImage_app_def Let_def)
qed

text \<open>
  The theorem on a user input of two spaces and on the user input \<open> blue \<close>, with
  models that answer with the prompt they receive: the full response of the result is
  the prompt that was sent.
\<close>

theorem final_prompt_sent_witness:
  "list_all is_ws (js ''  '') \<and>
   generateCodeFromImage_api echo_model_api (js ''data:,AA'') (js ''Draw it.'') (js ''  '') =
     (Inr \<lparr>fullResponse = Some (js ''Draw it.''), code = Some []\<rparr>,
      [\<lparr>call_model = ''gemini-1.5-flash'', call_prompt = js ''Draw it.'',
        call_data = Some (js ''AA''), call_mimeType = ''image/jpeg''\<rparr>]) \<and>
   generateCodeFromImage_app echo_model_app (js ''data:,AA'') (js ''Draw it.'') (js ''  '') =
     ((0, Inr \<lparr>fullResponse = Some (js ''Draw it.''), code = Some (js ''Draw it.'')\<rparr>),
      [\<lparr>call_model = ''gemini-2.5-flash'', call_prompt = js ''Draw it.'',
        call_data = Some (js ''AA''), call_mimeType = ''image/jpeg''\<rparr>]) \<and>
   \<not> list_all is_ws (js '' blue '') \<and>
   generateCodeFromImage_api echo_model_api (js ''data:,AA'') (js ''Draw it.'') (js '' blue '') =
     (Inr \<lparr>fullResponse = Some (js ''Draw it.'' @ [0x0A, 0x0A] @ js ''User input:  blue ''),
           code = Some []\<rparr>,
      [\<lparr>call_model = ''gemini-1.5-flash'',
        call_prompt = js ''Draw it.'' @ [0x0A, 0x0A] @ js ''User input:  blue '',
        call_data = Some (js ''AA''), call_mimeType = ''image/jpeg''\<rparr>]) \<and>
   generateCodeFromImage_app echo_model_app (js ''data:,AA'') (js ''Draw it.'') (js '' blue '') =
     ((0, Inr \<lparr>fullResponse = Some (js ''Draw it.'' @ [0x0A, 0x0A] @ js ''User input:  blue ''),
               code = Some (js ''Draw it.'' @ [0x0A, 0x0A] @ js ''User input:  blue '')\<rparr>),
      [\<lparr>call_model = ''gemini-2.5-flash'',
        call_prompt = js ''Draw it.'' @ [0x0A, 0x0A] @ js ''User input:  blue '',
        call_data = Some (js ''AA''), call_mimeType = ''image/jpeg''\<rparr>])"
proof -
  let ?long = "js ''Draw it.'' @ [0x0A, 0x0A] @ js ''User input: '' @ js '' blue ''"
  have a: "\<forall>c\<in>set (js ''  ''). is_ws c" by (simp add: js_def is_ws_def)
  have b: "\<not> (\<forall>c\<in>set (js '' blue ''). is_ws c)" by (simp add: js_def is_ws_def)
  have ha: "((\<forall>c\<in>set (js ''  ''). is_ws c) \<longrightarrow> js ''Draw it.'' = js ''Draw it.'') \<and>
      (\<not> (\<forall>c\<in>set (js ''  ''). is_ws c) \<longrightarrow>
         js ''Draw it.'' = js ''Draw it.'' @ [0x0A, 0x0A] @ js ''User input: '' @ js ''  '')"
    using a by simp
  have hb: "((\<forall>c\<in>set (js '' blue ''). is_ws c) \<longrightarrow> ?long = js ''Draw it.'') \<and>
      (\<not> (\<forall>c\<in>set (js '' blue ''). is_ws c) \<longrightarrow> ?long = ?long)"
    using b by simp
  have c: "?long = js ''Draw it.'' @ [0x0A, 0x0A] @ js ''User input:  blue ''"
    by (simp add: js_def)
  have d: "image_data (js ''data:,AA'') = Some (js ''AA'')" by code_simp
  have e1: "extractedCode_api (js ''Draw it.'') = Inr []" by code_simp
  have e2: "extractedCode_app (js ''Draw it.'') = Inr (js ''Draw it.'')" by code_simp
  have e3: "extractedCode_api (js ''Draw it.'' @ [0x0A, 0x0A] @ js ''User input:  blue '') = Inr []"
    by code_simp
  have e4: "extractedCode_app (js ''Draw it.'' @ [0x0A, 0x0A] @ js ''User input:  blue '') =
      Inr (js ''Draw it.'' @ [0x0A, 0x0A] @ js ''User input:  blue '')"
    by code_simp
  have r1: "generateCodeFromImage_api echo_model_api (js ''data:,AA'') (js ''Draw it.'') (js ''  '') =
     (Inr \<lparr>fullResponse = Some (js ''Draw it.''), code = Some []\<rparr>,
      [\<lparr>call_model = ''gemini-1.5-flash'', call_prompt = js ''Draw it.'',
        call_data = Some (js ''AA''), call_mimeType = ''image/jpeg''\<rparr>])"
    and r2: "generateCodeFromImage_app echo_model_app (js ''data:,AA'') (js ''Draw it.'') (js ''  '') =
     ((0, Inr \<lparr>fullResponse = Some (js ''Draw it.''), code = Some (js ''Draw it.'')\<rparr>),
      [\<lparr>call_model = ''gemini-2.5-flash'', call_prompt = js ''Draw it.'',
        call_data = Some (js ''AA''), call_mimeType = ''image/jpeg''\<rparr>])"
    using final_prompt_sent [OF ha, of echo_model_api "js ''data:,AA''" echo_model_app]
    by (simp_all add: echo_model_api_def echo_model_app_def d e1 e2)
  have r3: "generateCodeFromImage_api echo_model_api (js ''data:,AA'') (js ''Draw it.'') (js '' blue '') =
     (Inr \<lparr>fullResponse = Some (js ''Draw it.'' @ [0x0A, 0x0A] @ js ''User input:  blue ''),
           code = Some []\<rparr>,
      [\<lparr>call_model = ''gemini-1.5-flash'',
        call_prompt = js ''Draw it.'' @ [0x0A, 0x0A] @ js ''User input:  blue '',
        call_data = Some (js ''AA''), call_mimeType = ''image/jpeg''\<rparr>])"
    and r4: "generateCodeFromImage_app echo_model_app (js ''data:,AA'') (js ''Draw it.'') (js '' blue '') =
     ((0, Inr \<lparr>fullResponse = Some (js ''Draw it.'' @ [0x0A, 0x0A] @ js ''User input:  blue ''),
               code = Some (js ''Draw it.'' @ [0x0A, 0x0A] @ js ''User input:  blue '')\<rparr>),
      [\<lparr>call_model = ''gemini-2.5-flash'',
        call_prompt = js ''Draw it.'' @ [0x0A, 0x0A] @ js ''User input:  blue '',
        call_data = Some (js ''AA''), call_mimeType = ''image/jpeg''\<rparr>])"
    using final_prompt_sent [OF hb, of echo_model_api "js ''data:,AA''" echo_model_app,
        unfolded c]
    by (simp_all only: echo_model_api_def echo_model_app_def d e3 e4 model_call.simps
        sum.case fst_conv snd_conv)
  show ?thesis
    using a [folded list_all_iff] b [folded list_all_iff] r1 r2 r3 r4 by (simp only: simp_thms)
qed

section \<open>Claims about generateCode and handleCodeChange\<close>

lemma first_rejection_None_iff:
  "first_rejection ps = None \<longleftrightarrow> (\<forall>p\<in>set ps. \<exists>v. snd p = Inr v)"
proof (induction ps rule: first_rejection.induct)
  case 1
  show ?case by simp
next
  case (2 t v ps)
  then show ?case by simp
next
  case (3 t e ps)
  show ?case by (simp split: option.splits)
qed

lemma Promise_all_rejected:
  assumes "p \<in> set ps" and "snd p = Inl e"
  shows "\<exists>e'. Promise_all ps = Inl e'"
proof -
  have "first_rejection ps \<noteq> None"
    using assms first_rejection_None_iff [of ps] by auto
  then show ?thesis by (auto simp: Promise_all_def split: option.splits)
qed

lemma fulfilled_values_all:
  "\<forall>p\<in>set ps. \<exists>v. snd p = Inr v \<Longrightarrow> map (Inr \<circ> id) (fulfilled_values ps) = map snd ps"
proof (induction ps rule: fulfilled_values.induct)
  case 1
  show ?case by simp
next
  case (2 t v ps)
  then show ?case by simp
next
  case (3 t e ps)
  then show ?case by simp
qed

lemma Promise_all_fulfilled:
  assumes "map snd ps = map Inr rs"
  shows "Promise_all ps = Inr rs"
proof -
  have a: "\<forall>p\<in>set ps. \<exists>v. snd p = Inr v"
  proof
    fix p assume "p \<in> set ps"
    then have "snd p \<in> set (map snd ps)" by simp
    then have "snd p \<in> set (map Inr rs)" by (simp only: assms)
    then show "\<exists>v. snd p = Inr v" by auto
  qed
  then have "first_rejection ps = None" by (simp add: first_rejection_None_iff)
  moreover have "map Inr (fulfilled_values ps) = map Inr rs"
    using fulfilled_values_all [OF a] assms by simp
  then have "fulfilled_values ps = rs"
    by (simp add: inj_map_eq_map [OF inj_Inr])
  ultimately show ?thesis by (simp add: Promise_all_def)
qed

lemma outputs_of_results:
  "map (\<lambda>(index, result). to_output index result) (enumerate 0 rs) =
     map (\<lambda>i. to_output i (rs ! i)) [0..<length rs]"
  by (rule nth_equalityI) (simp_all add: nth_enumerate_eq)

lemma settle_fulfilled:
  assumes "map snd ps = map Inr rs"
  shows "generateCode_settle ps st =
     st\<lparr>outputs := map (\<lambda>i. to_output i (rs ! i)) [0..<length rs], loading := False\<rparr>"
  by (simp add: generateCode_settle_def Promise_all_fulfilled [OF assms] outputs_of_results)

lemma settle_rejected:
  assumes "p \<in> set ps" and "snd p = Inl e"
  shows "generateCode_settle ps st = st\<lparr>showErrorModal := True, loading := False\<rparr>"
  using Promise_all_rejected [OF assms] by (auto simp: generateCode_settle_def)

lemma outcomes_fulfilled:
  assumes "length rs = n" and "\<forall>i<n. snd (f i) = Inr (rs ! i)"
  shows "map snd (map f [0..<n]) = map Inr rs"
  using assms by (intro nth_equalityI) simp_all

lemma submit_Some:
  "imageBase64 st \<noteq> [] \<Longrightarrow>
   generateCode_submit st =
     Some (st\<lparr>loading := True, hasStartedGenerating := True, outputs := []\<rparr>)"
  by (simp add: generateCode_submit_def)

lemma ids_of_outputs:
  "map oid (map (\<lambda>i. to_output i (rs ! i)) [0..<n]) = [1..<n + 1]"
  by (intro nth_equalityI) (simp_all add: to_output_def del: upt_Suc)

lemma pages_success:
  assumes "imageBase64 st \<noteq> []" and "length rs = concurrentRequests st"
    and "\<forall>i<concurrentRequests st. snd (fetch i (fetch_request st)) = Inr (rs ! i)"
  shows "generateCode_pages fetch st =
     st\<lparr>loading := False, hasStartedGenerating := True,
        outputs := map (\<lambda>i. to_output i (rs ! i)) [0..<concurrentRequests st]\<rparr>"
proof -
  have "map snd (requests_pages fetch st) = map Inr rs"
    unfolding requests_pages_def using assms(2,3) by (rule outcomes_fulfilled)
  from settle_fulfilled [OF this] show ?thesis
    by (simp add: generateCode_pages_def submit_Some [OF assms(1)] assms(2))
qed

lemma app_success:
  assumes "imageBase64 st \<noteq> []" and "length rs = concurrentRequests st"
    and "\<forall>i<concurrentRequests st.
           snd (fst (generateCodeFromImage_app (model i) (imageBase64 st) (prompt st) (userInput st)))
             = Inr (rs ! i)"
  shows "fst (generateCode_app model st) =
     st\<lparr>loading := False, hasStartedGenerating := True,
        outputs := map (\<lambda>i. to_output i (rs ! i)) [0..<concurrentRequests st]\<rparr>"
proof -
  have "map snd (map (\<lambda>i. fst (generateCodeFromImage_app (model i) (imageBase64 st) (prompt st)
      (userInput st))) [0..<concurrentRequests st]) = map Inr rs"
    using assms(2,3) by (rule outcomes_fulfilled)
  then have "map snd (map fst (requests_app model st)) = map Inr rs"
    by (simp add: requests_app_def comp_def)
  from settle_fulfilled [OF this] show ?thesis
    by (simp add: generateCode_app_def submit_Some [OF assms(1)] assms(2))
qed

lemma pages_failure:
  assumes "imageBase64 st \<noteq> []" and "k < concurrentRequests st"
    and "snd (fetch k (fetch_request st)) = Inl e"
  shows "generateCode_pages fetch st =
     st\<lparr>loading := False, hasStartedGenerating := True, outputs := [], showErrorModal := True\<rparr>"
proof -
  have "fetch k (fetch_request st) \<in> set (requests_pages fetch st)"
    using assms(2) by (simp add: requests_pages_def)
  from settle_rejected [OF this assms(3)] show ?thesis
    by (simp add: generateCode_pages_def submit_Some [OF assms(1)])
qed

lemma app_failure:
  assumes "imageBase64 st \<noteq> []" and "k < concurrentRequests st"
    and "snd (fst (generateCodeFromImage_app (model k) (imageBase64 st) (prompt st) (userInput st)))
           = Inl e"
  shows "fst (generateCode_app model st) =
     st\<lparr>loading := False, hasStartedGenerating := True, outputs := [], showErrorModal := True\<rparr>"
proof -
  have "fst (generateCodeFromImage_app (model k) (imageBase64 st) (prompt st) (userInput st))
      \<in> set (map fst (requests_app model st))"
    using assms(2) by (simp add: requests_app_def)
  from settle_rejected [OF this assms(3)] show ?thesis
    by (simp add: generateCode_app_def submit_Some [OF assms(1)])
qed

lemma rejection_fails_batch:
  assumes "imageBase64 st \<noteq> []" and "k < concurrentRequests st"
  shows "map_option outputs (generateCode_submit st) = Some [] \<and>
     (snd (fetch k (fetch_request st)) = Inl e \<longrightarrow>
        showErrorModal (generateCode_pages fetch st) \<and>
        outputs (generateCode_pages fetch st) = [] \<and>
        \<not> loading (generateCode_pages fetch st)) \<and>
     (snd (fst (generateCodeFromImage_app (model k) (imageBase64 st) (prompt st) (userInput st)))
        = Inl e \<longrightarrow>
        showErrorModal (fst (generateCode_app model st)) \<and>
        outputs (fst (generateCode_app model st)) = [] \<and>
        \<not> loading (fst (generateCode_app model st)))"
  using pages_failure [OF assms, of fetch e] app_failure [OF assms, of model e]
  by (simp add: submit_Some [OF assms(1)])

lemma rejection_fails_batch_example:
  "imageBase64 ready_state \<noteq> [] \<and> (1::nat) < concurrentRequests ready_state \<and>
   snd (flaky_fetch 1 (fetch_request ready_state)) = Inl NetworkError \<and>
   showErrorModal (generateCode_pages flaky_fetch ready_state) \<and>
   outputs (generateCode_pages flaky_fetch ready_state) = [] \<and>
   \<not> loading (generateCode_pages flaky_fetch ready_state) \<and>
   snd (fst (generateCodeFromImage_app (flaky_model 1) (imageBase64 ready_state)
     (prompt ready_state) (userInput ready_state))) = Inl ApiError \<and>
   showErrorModal (fst (generateCode_app flaky_model ready_state)) \<and>
   outputs (fst (generateCode_app flaky_model ready_state)) = [] \<and>
   \<not> loading (fst (generateCode_app flaky_model ready_state))"
proof -
  have a: "imageBase64 ready_state \<noteq> []" by (simp add: ready_state_def js_def)
  have b: "(1::nat) < concurrentRequests ready_state" by (simp add: ready_state_def)
  have c: "snd (flaky_fetch 1 (fetch_request ready_state)) = Inl NetworkError"
    by (simp add: flaky_fetch_def)
  have d: "snd (fst (generateCodeFromImage_app (flaky_model 1) (imageBase64 ready_state)
     (prompt ready_state) (userInput ready_state))) = Inl ApiError"
    by (simp add: generateCodeFromImage_app_def flaky_model_def Let_def)
  show ?thesis
    using a b c d rejection_fails_batch [OF a b, of flaky_fetch NetworkError flaky_model]
      rejection_fails_batch [OF a b, of flaky_fetch ApiError flaky_model]
    by simp
qed

text \<open>
  Claim C5. When every request of a batch is fulfilled, the outputs are the results in
  the order of submission, one per request, with the ids 1 to N, which are distinct.
  The hypothesis fixes the outcome of each request and leaves the time at which it
  settles free, so the result does not depend on the order of completion. It holds for
  every number of requests, the range 1 to 10 of the slider included.
\<close>

theorem batch_success:
  assumes "imageBase64 st \<noteq> []"
  shows
    "(length rs = concurrentRequests st \<and>
      (\<forall>i<concurrentRequests st. snd (fetch i (fetch_request st)) = Inr (rs ! i)) \<longrightarrow>
        outputs (generateCode_pages fetch st) =
          map (\<lambda>i. \<lparr>fullResponse = fullResponse (rs ! i), code = code (rs ! i), oid = i + 1\<rparr>)
            [0..<concurrentRequests st] \<and>
        length (outputs (generateCode_pages fetch st)) = concurrentRequests st \<and>
        map oid (outputs (generateCode_pages fetch st)) = [1..<concurrentRequests st + 1] \<and>
        distinct (map oid (outputs (generateCode_pages fetch st)))) \<and>
     (length qs = concurrentRequests st \<and>
      (\<forall>i<concurrentRequests st.
         snd (fst (generateCodeFromImage_app (model i) (imageBase64 st) (prompt st) (userInput st)))
           = Inr (qs ! i)) \<longrightarrow>
        outputs (fst (generateCode_app model st)) =
          map (\<lambda>i. \<lparr>fullResponse = fullResponse (qs ! i), code = code (qs ! i), oid = i + 1\<rparr>)
            [0..<concurrentRequests st] \<and>
        length (outputs (fst (generateCode_app model st))) = concurrentRequests st \<and>
        map oid (outputs (fst (generateCode_app model st))) = [1..<concurrentRequests st + 1] \<and>
        distinct (map oid (outputs (fst (generateCode_app model st)))))"
proof -
  have d: "\<And>n. distinct [1..<n + 1]" by simp
  have p: "length rs = concurrentRequests st \<Longrightarrow>
      \<forall>i<concurrentRequests st. snd (fetch i (fetch_request st)) = Inr (rs ! i) \<Longrightarrow>
      outputs (generateCode_pages fetch st) =
        map (\<lambda>i. to_output i (rs ! i)) [0..<concurrentRequests st]"
    using pages_success [OF assms, of rs fetch] by simp
  have q: "length qs = concurrentRequests st \<Longrightarrow>
      \<forall>i<concurrentRequests st.
         snd (fst (generateCodeFromImage_app (model i) (imageBase64 st) (prompt st) (userInput st)))
           = Inr (qs ! i) \<Longrightarrow>
      outputs (fst (generateCode_app model st)) =
        map (\<lambda>i. to_output i (qs ! i)) [0..<concurrentRequests st]"
    using app_success [OF assms, of qs model] by simp
  show ?thesis
  proof (intro conjI impI)
    assume h: "length rs = concurrentRequests st \<and>
      (\<forall>i<concurrentRequests st. snd (fetch i (fetch_request st)) = Inr (rs ! i))"
    then have o: "outputs (generateCode_pages fetch st) =
        map (\<lambda>i. to_output i (rs ! i)) [0..<concurrentRequests st]" using p by blast
    show "outputs (generateCode_pages fetch st) =
          map (\<lambda>i. \<lparr>fullResponse = fullResponse (rs ! i), code = code (rs ! i), oid = i + 1\<rparr>)
            [0..<concurrentRequests st]" using o by (simp add: to_output_def)
    show "length (outputs (generateCode_pages fetch st)) = concurrentRequests st"
      using o by simp
    show i: "map oid (outputs (generateCode_pages fetch st)) = [1..<concurrentRequests st + 1]"
      by (simp only: o ids_of_outputs)
    show "distinct (map oid (outputs (generateCode_pages fetch st)))"
      by (simp only: i d)
  next
    assume h: "length qs = concurrentRequests st \<and>
      (\<forall>i<concurrentRequests st.
         snd (fst (generateCodeFromImage_app (model i) (imageBase64 st) (prompt st) (userInput st)))
           = Inr (qs ! i))"
    then have o: "outputs (fst (generateCode_app model st)) =
        map (\<lambda>i. to_output i (qs ! i)) [0..<concurrentRequests st]" using q by blast
    show "outputs (fst (generateCode_app model st)) =
          map (\<lambda>i. \<lparr>fullResponse = fullResponse (qs ! i), code = code (qs ! i), oid = i + 1\<rparr>)
            [0..<concurrentRequests st]" using o by (simp add: to_output_def)
    show "length (outputs (fst (generateCode_app model st))) = concurrentRequests st"
      using o by simp
    show i: "map oid (outputs (fst (generateCode_app model st))) = [1..<concurrentRequests st + 1]"
      by (simp only: o ids_of_outputs)
    show "distinct (map oid (outputs (fst (generateCode_app model st))))"
      by (simp only: i d)
  qed
qed

text \<open>
  The theorem on a batch of two requests in which request 0 settles after request 1.
\<close>

theorem batch_success_witness:
  "imageBase64 ready_state \<noteq> [] \<and> concurrentRequests ready_state = 2 \<and>
   outputs (generateCode_pages good_fetch ready_state) =
     [\<lparr>fullResponse = Some example_text, code = Some (js ''<div>hi</div>''), oid = 1\<rparr>,
      \<lparr>fullResponse = Some html_tagged_text, code = Some (js ''<p>a</p>''), oid = 2\<rparr>] \<and>
   map oid (outputs (generateCode_pages good_fetch ready_state)) = [1, 2] \<and>
   outputs (fst (generateCode_app good_model ready_state)) =
     [\<lparr>fullResponse = Some js_tagged_text, code = Some (js ''let x;''), oid = 1\<rparr>,
      \<lparr>fullResponse = Some unterminated_text, code = Some unterminated_text, oid = 2\<rparr>] \<and>
   map oid (outputs (fst (generateCode_app good_model ready_state))) = [1, 2]"
proof -
  let ?rs = "[\<lparr>fullResponse = Some example_text, code = Some (js ''<div>hi</div>''),
                message = None\<rparr>,
              \<lparr>fullResponse = Some html_tagged_text, code = Some (js ''<p>a</p>''),
                message = None\<rparr>]"
  let ?qs = "[\<lparr>fullResponse = Some js_tagged_text, code = Some (js ''let x;'')\<rparr>,
              \<lparr>fullResponse = Some unterminated_text, code = Some unterminated_text\<rparr>]"
  have a: "imageBase64 ready_state \<noteq> []" by (simp add: ready_state_def js_def)
  have n: "concurrentRequests ready_state = 2" by (simp add: ready_state_def)
  have u: "[0..<2] = [0, Suc 0]" "[1..<2 + 1] = [1, 2::nat]" by (simp_all add: upt_rec)
  have e0: "extractedCode_app js_tagged_text = Inr (js ''let x;'')" by code_simp
  have e1: "extractedCode_app unterminated_text = Inr unterminated_text" by code_simp
  have r: "length ?rs = concurrentRequests ready_state \<and>
      (\<forall>i<concurrentRequests ready_state.
         snd (good_fetch i (fetch_request ready_state)) = Inr (?rs ! i))"
    by (simp add: n good_fetch_def less_2_cases_iff)
  have q: "length ?qs = concurrentRequests ready_state \<and>
      (\<forall>i<concurrentRequests ready_state.
         snd (fst (generateCodeFromImage_app (good_model i) (imageBase64 ready_state)
           (prompt ready_state) (userInput ready_state))) = Inr (?qs ! i))"
    by (simp add: n good_model_def generateCodeFromImage_app_def Let_def e0 e1 less_2_cases_iff)
  show ?thesis
    using a n r q batch_success [OF a, of ?rs good_fetch ?qs good_model]
    by (simp add: u)
qed

text \<open>
  Claim C8, as amended. The results of the previous batch are discarded at submission,
  not when the new batch resolves: \<open>setOutputs([])\<close> runs before the requests are
  created. While the batch is in flight the outputs are empty; when it settles they
  stay empty if a request was rejected and become the results of the new batch
  otherwise.
\<close>

theorem previous_results_cleared_at_submission:
  assumes "generateCode_submit st = Some st'"
  shows "outputs st' = [] \<and> loading st' \<and>
     (Promise_all requests = Inl e \<longrightarrow> outputs (generateCode_settle requests st') = []) \<and>
     (Promise_all requests = Inr results \<longrightarrow>
        outputs (generateCode_settle requests st') =
          map (\<lambda>i. \<lparr>fullResponse = fullResponse (results ! i), code = code (results ! i),
                     oid = i + 1\<rparr>) [0..<length results])"
proof -
  from assms have st': "st' = st\<lparr>loading := True, hasStartedGenerating := True, outputs := []\<rparr>"
    by (simp add: generateCode_submit_def split: if_splits)
  show ?thesis
    by (simp add: st' generateCode_settle_def outputs_of_results to_output_def)
qed

text \<open>
  The theorem on a page that shows two results, with a batch that is rejected and a
  batch that is fulfilled.
\<close>

theorem previous_results_cleared_at_submission_witness:
  "generateCode_submit ready_state =
     Some (ready_state\<lparr>loading := True, hasStartedGenerating := True, outputs := []\<rparr>) \<and>
   outputs ready_state = [item1, item2] \<and>
   Promise_all (requests_pages flaky_fetch ready_state) = Inl NetworkError \<and>
   outputs (generateCode_settle (requests_pages flaky_fetch ready_state)
     (ready_state\<lparr>loading := True, hasStartedGenerating := True, outputs := []\<rparr>)) = [] \<and>
   Promise_all (requests_pages good_fetch ready_state) =
     Inr [\<lparr>fullResponse = Some example_text, code = Some (js ''<div>hi</div>''), message = None\<rparr>,
          \<lparr>fullResponse = Some html_tagged_text, code = Some (js ''<p>a</p>''), message = None\<rparr>] \<and>
   outputs (generateCode_settle (requests_pages good_fetch ready_state)
     (ready_state\<lparr>loading := True, hasStartedGenerating := True, outputs := []\<rparr>)) =
     [\<lparr>fullResponse = Some example_text, code = Some (js ''<div>hi</div>''), oid = 1\<rparr>,
      \<lparr>fullResponse = Some html_tagged_text, code = Some (js ''<p>a</p>''), oid = 2\<rparr>]"
proof -
  let ?st' = "ready_state\<lparr>loading := True, hasStartedGenerating := True, outputs := []\<rparr>"
  let ?rs = "[\<lparr>fullResponse = Some example_text, code = Some (js ''<div>hi</div>''),
                message = None\<rparr>,
              \<lparr>fullResponse = Some html_tagged_text, code = Some (js ''<p>a</p>''),
                message = None\<rparr>]"
  have a: "imageBase64 ready_state \<noteq> []" by (simp add: ready_state_def js_def)
  have s: "generateCode_submit ready_state = Some ?st'" using a by (rule submit_Some)
  have o: "outputs ready_state = [item1, item2]" by (simp add: ready_state_def)
  have u: "[0..<2] = [0, Suc 0]" by (simp add: upt_rec)
  have f: "Promise_all (requests_pages flaky_fetch ready_state) = Inl NetworkError"
    by (simp add: requests_pages_def ready_state_def u flaky_fetch_def Promise_all_def)
  have g: "Promise_all (requests_pages good_fetch ready_state) = Inr ?rs"
    by (simp add: requests_pages_def ready_state_def u good_fetch_def Promise_all_def)
  show ?thesis
    using s o f g
      previous_results_cleared_at_submission [OF s,
        of "requests_pages flaky_fetch ready_state" NetworkError ?rs]
      previous_results_cleared_at_submission [OF s,
        of "requests_pages good_fetch ready_state" NetworkError ?rs]
    by (simp add: u)
qed

text \<open>
  Claim C8 as stated fails: the state that \<open>generateCode\<close> leaves at its \<open>await\<close> has no
  outputs, while the page showed two results before.
\<close>

theorem previous_results_kept_counterexample:
  "map_option outputs (generateCode_submit ready_state) = Some [] \<and>
   outputs ready_state = [item1, item2] \<and>
   map_option outputs (generateCode_submit ready_state) \<noteq> Some (outputs ready_state)"
  by (simp add: generateCode_submit_def ready_state_def js_def)

lemma map_update_distinct:
  assumes "distinct (map f xs)" and "k < length xs"
  shows "map (\<lambda>x. if f x = f (xs ! k) then g x else x) xs = xs[k := g (xs ! k)]"
proof (rule nth_equalityI)
  show "length (map (\<lambda>x. if f x = f (xs ! k) then g x else x) xs) = length (xs[k := g (xs ! k)])"
    by simp
next
  fix j assume "j < length (map (\<lambda>x. if f x = f (xs ! k) then g x else x) xs)"
  then have j: "j < length xs" by simp
  have "f (xs ! j) = f (xs ! k) \<longleftrightarrow> j = k"
    using assms j nth_eq_iff_index_eq [of "map f xs" j k] by simp
  then show "map (\<lambda>x. if f x = f (xs ! k) then g x else x) xs ! j = xs[k := g (xs ! k)] ! j"
    using j assms(2) by (simp add: nth_list_update)
qed

text \<open>
  Claim C9. \<open>handleCodeChange(id, newCode)\<close> keeps the number and order of the outputs,
  the id and the full response of every output, and the code of every output with
  another id; an output with the given id gets \<open>newCode\<close> as its code, whatever its full
  response holds. When the ids are distinct, as they are after \<open>generateCode\<close>, exactly
  the one output at the position of that id is replaced.
\<close>

theorem code_edit_frame:
  "length (outputs (handleCodeChange i c st)) = length (outputs st) \<and>
   (\<forall>k<length (outputs st).
      oid (outputs (handleCodeChange i c st) ! k) = oid (outputs st ! k) \<and>
      fullResponse (outputs (handleCodeChange i c st) ! k) = fullResponse (outputs st ! k) \<and>
      code (outputs (handleCodeChange i c st) ! k) =
        (if oid (outputs st ! k) = i then Some c else code (outputs st ! k))) \<and>
   (distinct (map oid (outputs st)) \<longrightarrow>
      (\<forall>k<length (outputs st).
         handleCodeChange (oid (outputs st ! k)) c st =
           st\<lparr>outputs := (outputs st)[k := (outputs st ! k)\<lparr>code := Some c\<rparr>]\<rparr>))"
proof (intro conjI allI impI)
  show "length (outputs (handleCodeChange i c st)) = length (outputs st)"
    by (simp add: handleCodeChange_def)
next
  fix k assume "k < length (outputs st)"
  then show "oid (outputs (handleCodeChange i c st) ! k) = oid (outputs st ! k)"
    "fullResponse (outputs (handleCodeChange i c st) ! k) = fullResponse (outputs st ! k)"
    "code (outputs (handleCodeChange i c st) ! k) =
        (if oid (outputs st ! k) = i then Some c else code (outputs st ! k))"
    by (simp_all add: handleCodeChange_def)
next
  fix k assume "distinct (map oid (outputs st))" "k < length (outputs st)"
  then show "handleCodeChange (oid (outputs st ! k)) c st =
           st\<lparr>outputs := (outputs st)[k := (outputs st ! k)\<lparr>code := Some c\<rparr>]\<rparr>"
    using map_update_distinct [of oid "outputs st" k "\<lambda>item. item\<lparr>code := Some c\<rparr>"]
    by (simp add: handleCodeChange_def)
qed

text \<open>
  The theorem on the edit of output 2. Its full response is unchanged, and the code that
  the extractor would compute from that response is not the code it holds after the edit.
\<close>

theorem code_edit_frame_witness:
  "distinct (map oid (outputs ready_state)) \<and> (1::nat) < length (outputs ready_state) \<and>
   oid (outputs ready_state ! 1) = 2 \<and>
   handleCodeChange 2 (js ''<b>edited</b>'') ready_state =
     ready_state\<lparr>outputs := [item1, item2\<lparr>code := Some (js ''<b>edited</b>'')\<rparr>]\<rparr> \<and>
   fullResponse (outputs (handleCodeChange 2 (js ''<b>edited</b>'') ready_state) ! 1) =
     Some html_tagged_text \<and>
   code (outputs (handleCodeChange 2 (js ''<b>edited</b>'') ready_state) ! 1) =
     Some (js ''<b>edited</b>'') \<and>
   extractedCode_api html_tagged_text = Inr (js ''<p>a</p>'')"
proof -
  have d: "distinct (map oid (outputs ready_state))"
    by (simp add: ready_state_def item1_def item2_def)
  have l: "(1::nat) < length (outputs ready_state)" by (simp add: ready_state_def)
  have i: "oid (outputs ready_state ! 1) = 2" by (simp add: ready_state_def item2_def)
  have o: "outputs ready_state = [item1, item2]" by (simp add: ready_state_def)
  have f: "fullResponse item2 = Some html_tagged_text" by (simp add: item2_def)
  have e: "extractedCode_api html_tagged_text = Inr (js ''<p>a</p>'')" by code_simp
  have "handleCodeChange (oid (outputs ready_state ! 1)) (js ''<b>edited</b>'') ready_state =
      ready_state\<lparr>outputs := (outputs ready_state)[1 := (outputs ready_state ! 1)
        \<lparr>code := Some (js ''<b>edited</b>'')\<rparr>]\<rparr>"
    by (rule code_edit_frame [of 2 "js ''<b>edited</b>''" ready_state,
          THEN conjunct2, THEN conjunct2, rule_format, OF d l])
  then have h: "handleCodeChange 2 (js ''<b>edited</b>'') ready_state =
      ready_state\<lparr>outputs := [item1, item2\<lparr>code := Some (js ''<b>edited</b>'')\<rparr>]\<rparr>"
    by (simp add: o item2_def)
  show ?thesis using d l i e by (simp add: h f)
qed

text \<open>
  Claim C7 at an input where the code departs from it. \<open>generateCode\<close> of the client-side
  app checks the image only: with an image and an empty prompt it calls the model once
  per request, with an empty prompt. The handler of the API route rejects the same
  submission with status 400 before any call. A missing image is rejected by both pages
  before any request is made (\<open>missing_image_no_request\<close>).
\<close>

theorem missing_prompt_reaches_model:
  "imageBase64 no_prompt_state \<noteq> [] \<and> prompt no_prompt_state = [] \<and>
   snd (generateCode_app good_model no_prompt_state) =
     [\<lparr>call_model = ''gemini-2.5-flash'', call_prompt = [], call_data = Some (js ''AAAA''),
       call_mimeType = ''image/jpeg''\<rparr>,
      \<lparr>call_model = ''gemini-2.5-flash'', call_prompt = [], call_data = Some (js ''AAAA''),
       call_mimeType = ''image/jpeg''\<rparr>] \<and>
   handler (failing_model 0) (fetch_request no_prompt_state) =
     (\<lparr>status = 400, body = message_body ''Missing required parameters''\<rparr>, [])"
proof -
  have a: "imageBase64 no_prompt_state \<noteq> []"
    by (simp add: no_prompt_state_def ready_state_def js_def)
  have i: "image_data (imageBase64 no_prompt_state) = Some (js ''AAAA'')"
    unfolding no_prompt_state_def ready_state_def by code_simp
  have p: "finalPrompt (prompt no_prompt_state) (userInput no_prompt_state) = []"
    by (simp add: no_prompt_state_def ready_state_def finalPrompt_def trim_def)
  have u: "[0..<2] = [0, Suc 0]" by (simp add: upt_rec)
  have n: "concurrentRequests no_prompt_state = 2"
    by (simp add: no_prompt_state_def ready_state_def)
  have c: "snd (generateCode_app good_model no_prompt_state) =
     [\<lparr>call_model = ''gemini-2.5-flash'', call_prompt = [], call_data = Some (js ''AAAA''),
       call_mimeType = ''image/jpeg''\<rparr>,
      \<lparr>call_model = ''gemini-2.5-flash'', call_prompt = [], call_data = Some (js ''AAAA''),
       call_mimeType = ''image/jpeg''\<rparr>]"
    by (simp add: generateCode_app_def submit_Some [OF a] requests_app_def comp_def calls_app
        i p n u)
  have h: "handler (failing_model 0) (fetch_request no_prompt_state) =
     (\<lparr>status = 400, body = message_body ''Missing required parameters''\<rparr>, [])"
    by (simp add: handler_def fetch_request_def no_prompt_state_def)
  show ?thesis using a c h by (simp add: no_prompt_state_def)
qed

lemma missing_image_no_request:
  assumes "imageBase64 st = []"
  shows "generateCode_pages fetch st = st \<and> generateCode_app model st = (st, [])"
  using assms by (simp add: generateCode_pages_def generateCode_app_def generateCode_submit_def)

lemma handler_rejects_missing:
  assumes "body_imageBase64 req = None \<or> body_imageBase64 req = Some [] \<or>
           body_prompt req = None \<or> body_prompt req = Some []"
    and "req_method req = ''POST''"
  shows "handler model req =
     (\<lparr>status = 400, body = message_body ''Missing required parameters''\<rparr>, [])"
  using assms by (auto simp: handler_def split: option.splits)

text \<open>
  Claim C4 at an input where the code departs from it. In \<open>pages/index.tsx\<close> a request
  whose model call fails on the server is answered with status 500 and a JSON message.
  \<open>fetch\<close> fulfils, \<open>res.json()\<close> fulfils, \<open>Promise.all\<close> fulfils: the error modal is
  not shown and the outputs hold the result of the other request together with an item
  whose code and full response are undefined. A rejected request does fail the whole
  batch in both variants (\<open>rejection_fails_batch\<close>).
\<close>

theorem server_error_not_batch_failure:
  "imageBase64 ready_state \<noteq> [] \<and> concurrentRequests ready_state = 2 \<and>
   handler (failing_model 1) (fetch_request ready_state) =
     (\<lparr>status = 500, body = message_body ''Error generating code''\<rparr>,
      [\<lparr>call_model = ''gemini-1.5-flash'', call_prompt = js ''Turn the image into HTML.'',
        call_data = Some (js ''AAAA''), call_mimeType = ''image/jpeg''\<rparr>]) \<and>
   \<not> showErrorModal (generateCode_pages (api_fetch failing_model) ready_state) \<and>
   outputs (generateCode_pages (api_fetch failing_model) ready_state) =
     [\<lparr>fullResponse = Some example_text, code = Some (js ''<div>hi</div>''), oid = 1\<rparr>,
      \<lparr>fullResponse = None, code = None, oid = 2\<rparr>]"
proof -
  have a: "imageBase64 ready_state \<noteq> []" by (simp add: ready_state_def js_def)
  have n: "concurrentRequests ready_state = 2" by (simp add: ready_state_def)
  have u: "[0..<2] = [0, Suc 0]" by (simp add: upt_rec)
  have i: "image_data (js ''data:image/png;base64,AAAA'') = Some (js ''AAAA'')" by code_simp
  have p: "finalPrompt (js ''Turn the image into HTML.'') [] = js ''Turn the image into HTML.''"
    by (simp add: finalPrompt_def trim_def)
  have ne: "js ''data:image/png;base64,AAAA'' \<noteq> []" "js ''Turn the image into HTML.'' \<noteq> []"
    by (simp_all add: js_def)
  have e: "extractedCode_api example_text = Inr (js ''<div>hi</div>'')" by code_simp
  have h1: "handler (failing_model 1) (fetch_request ready_state) =
     (\<lparr>status = 500, body = message_body ''Error generating code''\<rparr>,
      [\<lparr>call_model = ''gemini-1.5-flash'', call_prompt = js ''Turn the image into HTML.'',
        call_data = Some (js ''AAAA''), call_mimeType = ''image/jpeg''\<rparr>])"
    by (simp add: handler_def fetch_request_def ready_state_def ne
        generateCodeFromImage_api_def Let_def failing_model_def i p)
  have h0: "fst (handler (failing_model 0) (fetch_request ready_state)) =
     \<lparr>status = 200,
      body = \<lparr>fullResponse = Some example_text, code = Some (js ''<div>hi</div>''),
               message = None\<rparr>\<rparr>"
    by (simp add: handler_def fetch_request_def ready_state_def ne
        generateCodeFromImage_api_def Let_def failing_model_def e)
  have r: "requests_pages (api_fetch failing_model) ready_state =
      [(0, Inr \<lparr>fullResponse = Some example_text, code = Some (js ''<div>hi</div>''),
                 message = None\<rparr>),
       (1, Inr (message_body ''Error generating code''))]"
    using h0 h1 by (simp add: requests_pages_def n u api_fetch_def)
  have g: "generateCode_pages (api_fetch failing_model) ready_state =
      ready_state\<lparr>loading := False, hasStartedGenerating := True,
        outputs := [\<lparr>fullResponse = Some example_text, code = Some (js ''<div>hi</div>''), oid = 1\<rparr>,
                    \<lparr>fullResponse = None, code = None, oid = 2\<rparr>]\<rparr>"
    by (simp add: generateCode_pages_def submit_Some [OF a] r generateCode_settle_def
        Promise_all_def enumerate_simps to_output_def message_body_def)
  have m: "\<not> showErrorModal ready_state" by (simp add: ready_state_def)
  show ?thesis using a n h1 m by (simp add: g)
qed

end
